theory Spec2Isabelle
  imports Complex_Main "HOL-Library.Word"
begin

unbundle bit_operations_syntax

section \<open>JavaScript values used by the automation code\<close>

text \<open>
  A JavaScript string is a sequence of UTF-16 code units.  The literals of the source are
  ASCII and are written through \<open>js\<close>.  The numbers that \<open>randomInt\<close> takes,
  computes with and returns are doubles (the type \<open>number\<close> below, with its rounding,
  its infinities and NaN); so are the pauses, wheel deltas and link indices it gives to
  the browser.  A seed, a draw \<open>rng()\<close> (a multiple of \<open>2^-32\<close> below 1) and a value
  of the configuration are finite numbers and are written as reals; the index
  \<open>Math.floor(rng() * items.length)\<close> of \<open>randomChoice\<close> is computed exactly (the
  product is exact in double precision for an array of fewer than \<open>2^21\<close> elements).
\<close>

type_synonym u32 = "32 word"
type_synonym jschar = "16 word"
type_synonym jsstring = "jschar list"

definition js :: "string \<Rightarrow> jsstring" where
  "js s = map of_char s"

text \<open>
  A thrown \<open>Error\<close> object: its \<open>name\<close> and its \<open>message\<close>.
  \<open>new Error(m)\<close> has the name \<open>Error\<close>.
\<close>

datatype error = JsError (err_name: jsstring) (err_message: jsstring)

definition new_Error :: "string \<Rightarrow> error" where
  "new_Error m = JsError (js ''Error'') (js m)"

text \<open>\<open>String(err)\<close> for an \<open>Error\<close> object (\<open>Error.prototype.toString\<close>).\<close>

definition String_of_error :: "error \<Rightarrow> jsstring" where
  "String_of_error e =
     (if err_name e = [] then err_message e
      else if err_message e = [] then err_name e
      else err_name e @ js '': '' @ err_message e)"

subsection \<open>Computations that mutate state and may throw\<close>

type_synonym ('a, 's) eff = "'s \<Rightarrow> (error + 'a) \<times> 's"

definition returnE :: "'a \<Rightarrow> ('a, 's) eff" where
  "returnE x s = (Inr x, s)"

definition throwE :: "error \<Rightarrow> ('a, 's) eff" where
  "throwE e s = (Inl e, s)"

definition bindE :: "('a, 's) eff \<Rightarrow> ('a \<Rightarrow> ('b, 's) eff) \<Rightarrow> ('b, 's) eff" where
  "bindE m f s = (case m s of (Inl e, s') \<Rightarrow> (Inl e, s') | (Inr x, s') \<Rightarrow> f x s')"

definition liftS :: "('s \<Rightarrow> 'a \<times> 's) \<Rightarrow> ('a, 's) eff" where
  "liftS m s = (case m s of (x, s') \<Rightarrow> (Inr x, s'))"

section \<open>humanize.ts: the seeded generator and the draws derived from it\<close>

text \<open>
  \<open>seed >>> 0\<close> is ToUint32: the number is truncated towards zero and reduced
  modulo \<open>2^32\<close>.
\<close>

definition trunc :: "real \<Rightarrow> int" where
  "trunc x = (if 0 \<le> x then \<lfloor>x\<rfloor> else \<lceil>x\<rceil>)"

definition ToUint32 :: "real \<Rightarrow> u32" where
  "ToUint32 x = word_of_int (trunc x)"

text \<open>
  The generator returned by \<open>mulberry32\<close> is a closure over one variable \<open>a\<close>;
  the model of the closure is the value of that variable.
\<close>

type_synonym rng = u32

definition mulberry32 :: "real \<Rightarrow> rng" where
  "mulberry32 seed = ToUint32 seed"

definition imul :: "u32 \<Rightarrow> u32 \<Rightarrow> u32" where
  "imul x y = x * y"

text \<open>One call \<open>rng()\<close>: the number returned and the new value of \<open>a\<close>.\<close>

definition rng_call :: "rng \<Rightarrow> real \<times> rng" where
  "rng_call a0 =
     (let a = a0 + 0x6d2b79f5;
          t = imul (a XOR drop_bit 15 a) (1 OR a);
          t = (t + imul (t XOR drop_bit 7 t) (61 OR t)) XOR t
      in (real (unat (t XOR drop_bit 14 t)) / 4294967296, a))"

text \<open>The first \<open>n\<close> numbers a generator returns.\<close>

fun draws :: "nat \<Rightarrow> rng \<Rightarrow> real list" where
  "draws 0 g = []"
| "draws (Suc n) g = (case rng_call g of (u, g') \<Rightarrow> u # draws n g')"

text \<open>
  A JavaScript number is an IEEE 754 double: a finite value, one of the two infinities,
  or NaN.  \<open>Finite x\<close> stands for the double of value \<open>x\<close> (the sign of a zero is not
  kept: no operation used here tells the two zeros apart).  Every arithmetic operation
  returns the double nearest to the exact result, a tie going to the double whose last
  bit is even; \<open>round_double\<close> is that rounding, for the 53-bit significand and the
  exponents from \<open>-1022\<close> to \<open>1023\<close> of a double, subnormal numbers and the overflow
  to an infinity included.  \<open>is_double x\<close> says that \<open>x\<close> is the value of a double.
\<close>

datatype number = Finite real | PlusInfinity | MinusInfinity | NaN

text \<open>The number of binary digits of a natural number.\<close>

function bit_length :: "nat \<Rightarrow> nat" where
  "bit_length n = (if n = 0 then 0 else Suc (bit_length (n div 2)))"
  by pat_completeness auto
termination
  by (relation "measure id") auto

declare bit_length.simps [simp del]

definition pow2 :: "int \<Rightarrow> real" where
  "pow2 e = (if 0 \<le> e then 2 ^ nat e else 1 / 2 ^ nat (- e))"

text \<open>For \<open>0 < x\<close>, \<open>binade x\<close> is the \<open>e\<close> with \<open>2^e \<le> x < 2^(e+1)\<close>.\<close>

definition binade :: "real \<Rightarrow> int" where
  "binade x = (if 1 \<le> x then int (bit_length (nat \<lfloor>x\<rfloor>)) - 1
               else - int (bit_length (nat (\<lceil>1 / x\<rceil> - 1))))"

text \<open>Rounding to the nearest integer, a tie going to the even one.\<close>

definition round_even :: "real \<Rightarrow> int" where
  "round_even t = (let f = \<lfloor>t\<rfloor> in
                   if t - of_int f < 1 / 2 then f
                   else if 1 / 2 < t - of_int f then f + 1
                   else if even f then f else f + 1)"

text \<open>
  The exponent of the double nearest to \<open>x\<close> (at least \<open>-1022\<close>: below, the numbers
  are subnormal), the distance \<open>ulp x\<close> between two neighbouring doubles there, and the
  magnitude of \<open>x\<close> rounded to a multiple of it.
\<close>

definition exponent :: "real \<Rightarrow> int" where
  "exponent x = max (binade \<bar>x\<bar>) (- 1022)"

definition ulp :: "real \<Rightarrow> real" where
  "ulp x = pow2 (exponent x - 52)"

definition round_magnitude :: "real \<Rightarrow> real" where
  "round_magnitude x = of_int (round_even (\<bar>x\<bar> / ulp x)) * ulp x"

definition round_double :: "real \<Rightarrow> number" where
  "round_double x =
     (if x = 0 then Finite 0
      else let y = round_magnitude x
           in if pow2 1024 \<le> y then (if 0 < x then PlusInfinity else MinusInfinity)
              else Finite (if 0 < x then y else - y))"

definition is_double :: "real \<Rightarrow> bool" where
  "is_double x = (round_double x = Finite x)"

text \<open>The operators \<open>-x\<close>, \<open>x + y\<close>, \<open>x - y\<close>, \<open>x * y\<close> and \<open>x < y\<close> on numbers.\<close>

fun js_neg :: "number \<Rightarrow> number" where
  "js_neg (Finite x) = Finite (- x)"
| "js_neg PlusInfinity = MinusInfinity"
| "js_neg MinusInfinity = PlusInfinity"
| "js_neg NaN = NaN"

fun js_add :: "number \<Rightarrow> number \<Rightarrow> number" where
  "js_add (Finite x) (Finite y) = round_double (x + y)"
| "js_add NaN _ = NaN"
| "js_add _ NaN = NaN"
| "js_add PlusInfinity MinusInfinity = NaN"
| "js_add MinusInfinity PlusInfinity = NaN"
| "js_add PlusInfinity _ = PlusInfinity"
| "js_add _ PlusInfinity = PlusInfinity"
| "js_add MinusInfinity _ = MinusInfinity"
| "js_add _ MinusInfinity = MinusInfinity"

definition js_sub :: "number \<Rightarrow> number \<Rightarrow> number" where
  "js_sub a b = js_add a (js_neg b)"

fun js_sign :: "number \<Rightarrow> int" where
  "js_sign (Finite x) = (if 0 < x then 1 else if x < 0 then - 1 else 0)"
| "js_sign PlusInfinity = 1"
| "js_sign MinusInfinity = - 1"
| "js_sign NaN = 0"

fun js_mul :: "number \<Rightarrow> number \<Rightarrow> number" where
  "js_mul (Finite x) (Finite y) = round_double (x * y)"
| "js_mul NaN _ = NaN"
| "js_mul _ NaN = NaN"
| "js_mul a b = (if js_sign a * js_sign b = 0 then NaN
                 else if 0 < js_sign a * js_sign b then PlusInfinity else MinusInfinity)"

fun js_less :: "number \<Rightarrow> number \<Rightarrow> bool" where
  "js_less (Finite x) (Finite y) = (x < y)"
| "js_less NaN _ = False"
| "js_less _ NaN = False"
| "js_less PlusInfinity _ = False"
| "js_less _ MinusInfinity = False"
| "js_less _ PlusInfinity = True"
| "js_less MinusInfinity _ = True"

fun Math_floor :: "number \<Rightarrow> number" where
  "Math_floor (Finite x) = Finite (of_int \<lfloor>x\<rfloor>)"
| "Math_floor n = n"

fun Math_ceil :: "number \<Rightarrow> number" where
  "Math_ceil (Finite x) = Finite (of_int \<lceil>x\<rceil>)"
| "Math_ceil n = n"

text \<open>
  \<open>randomInt\<close>, with the operations of the source in their order: the subtraction,
  the addition of 1, the product with the draw, the floor and the addition of the
  minimum each round their result.
\<close>

definition randomInt :: "rng \<Rightarrow> number \<Rightarrow> number \<Rightarrow> number \<times> rng" where
  "randomInt g minInclusive maxInclusive =
     (let mn = Math_ceil minInclusive; mx = Math_floor maxInclusive in
      if js_less mx mn then (mn, g)
      else (case rng_call g of (u, g') \<Rightarrow>
        (js_add (Math_floor (js_mul (Finite u) (js_add (js_sub mx mn) (Finite 1)))) mn, g')))"

definition randomChoice :: "rng \<Rightarrow> 'a list \<Rightarrow> (error + 'a) \<times> rng" where
  "randomChoice g items =
     (if length items = 0 then (Inl (new_Error ''randomChoice: empty array''), g)
      else (case rng_call g of (u, g') \<Rightarrow> (Inr (items ! nat \<lfloor>u * real (length items)\<rfloor>), g')))"

section \<open>Strings\<close>

text \<open>
  The code units that \<open>String.prototype.trim\<close> strips and that the regular expression
  class \<open>\s\<close> matches: the two sets coincide (white space and line terminators).
\<close>

definition is_space :: "jschar \<Rightarrow> bool" where
  "is_space c \<longleftrightarrow>
     c = 0x09 \<or> c = 0x0A \<or> c = 0x0B \<or> c = 0x0C \<or> c = 0x0D \<or> c = 0x20 \<or> c = 0xA0
     \<or> c = 0x1680 \<or> (0x2000 \<le> c \<and> c \<le> 0x200A) \<or> c = 0x2028 \<or> c = 0x2029
     \<or> c = 0x202F \<or> c = 0x205F \<or> c = 0x3000 \<or> c = 0xFEFF"

definition trim :: "jsstring \<Rightarrow> jsstring" where
  "trim s = rev (dropWhile is_space (rev (dropWhile is_space s)))"

text \<open>\<open>s.replace(/\s+/g, " ")\<close>: every maximal run of white space becomes one space.\<close>

function collapse_spaces :: "jsstring \<Rightarrow> jsstring" where
  "collapse_spaces [] = []"
| "collapse_spaces (c # cs) =
     (if is_space c then 0x20 # collapse_spaces (dropWhile is_space cs)
      else c # collapse_spaces cs)"
  by pat_completeness auto
termination
  by (relation "measure length") (auto simp: length_dropWhile_le less_Suc_eq_le)

text \<open>\<open>s.startsWith("#")\<close>.\<close>

definition startsWith_hash :: "jsstring \<Rightarrow> bool" where
  "startsWith_hash s = (case s of [] \<Rightarrow> False | c # _ \<Rightarrow> c = 0x23)"

text \<open>\<open>content.split(/\r?\n/g)\<close>: the lines between the matches of LF or CR LF.\<close>

fun split_lines :: "jsstring \<Rightarrow> jsstring list" where
  "split_lines [] = [[]]"
| "split_lines [c] = (if c = 0x0A then [[], []] else [[c]])"
| "split_lines (c # d # cs) =
     (if c = 0x0A then [] # split_lines (d # cs)
      else if c = 0x0D \<and> d = 0x0A then [] # split_lines cs
      else (case split_lines (d # cs) of l # ls \<Rightarrow> (c # l) # ls | [] \<Rightarrow> [[c]]))"

text \<open>The decimal digits of a natural number, and \<open>`${n}`\<close> for an integer \<open>n\<close>.\<close>

function digits :: "nat \<Rightarrow> jsstring" where
  "digits n = (if n < 10 then [0x30 + of_nat n] else digits (n div 10) @ [0x30 + of_nat (n mod 10)])"
  by pat_completeness auto
termination
  by (relation "measure id") auto

declare digits.simps [simp del]

definition String_of_int :: "int \<Rightarrow> jsstring" where
  "String_of_int i = (if i < 0 then 0x2D # digits (nat (- i)) else digits (nat i))"

text \<open>
  \<open>`${n}`\<close> for a number \<open>n\<close>: the decimal numeral of an integer, and the names of
  the values that are not finite.  (The exponent notation that JavaScript uses from
  \<open>10^21\<close> on and the digits after the point are not modelled; the one number printed
  here is an integer between 2 and 128.)
\<close>

fun String_of_number :: "number \<Rightarrow> jsstring" where
  "String_of_number (Finite x) = String_of_int \<lfloor>x\<rfloor>"
| "String_of_number PlusInfinity = js ''Infinity''"
| "String_of_number MinusInfinity = js ''-Infinity''"
| "String_of_number NaN = js ''NaN''"

text \<open>Predicates on the shape of a string.\<close>

fun has_double_space :: "jsstring \<Rightarrow> bool" where
  "has_double_space (c # d # cs) = ((is_space c \<and> is_space d) \<or> has_double_space (d # cs))"
| "has_double_space _ = False"

definition no_outer_space :: "jsstring \<Rightarrow> bool" where
  "no_outer_space s = (case s of [] \<Rightarrow> True | c # _ \<Rightarrow> \<not> is_space c \<and> \<not> is_space (last s))"

section \<open>queryGenerator.ts: the query generator\<close>

subsection \<open>The fixed vocabularies\<close>

definition categories :: "jsstring list" where
  "categories = map js
    [''wireless earbuds'', ''gaming laptop'', ''4k monitor'', ''robot vacuum'',
     ''air purifier'', ''standing desk'', ''office chair'', ''running shoes'',
     ''winter jacket'', ''skin care serum'', ''vitamin d supplement'', ''protein powder'',
     ''electric toothbrush'', ''blender'', ''espresso machine'', ''smartwatch'',
     ''phone case'', ''car dash cam'', ''tool set'', ''lego set'', ''mechanical keyboard'',
     ''noise cancelling headphones'', ''camping tent'', ''hiking backpack'', ''yoga mat'',
     ''sunscreen'', ''electric scooter'', ''cat food'', ''dog shampoo'', ''air fryer'',
     ''rice cooker'', ''mattress topper'', ''humidifier'', ''dehumidifier'',
     ''printer ink'', ''ssd 2tb'', ''router wifi 6e'', ''smart light bulbs'',
     ''coffee grinder'']"

definition adjectives :: "jsstring list" where
  "adjectives = map js
    [''best'', ''cheap'', ''premium'', ''budget'', ''top rated'', ''durable'',
     ''lightweight'', ''waterproof'', ''compact'', ''new'', ''refurbished'',
     ''eco friendly'', ''quiet'', ''portable'', ''high performance'']"

definition intents :: "jsstring list" where
  "intents = map js
    [''buy'', ''deals'', ''price'', ''sale'', ''discount'', ''free shipping'', ''near me'',
     ''online'', ''coupon'', ''clearance'', ''bundle'', ''gift'', ''student discount'']"

definition brands :: "jsstring list" where
  "brands = map js
    [''Samsung'', ''Apple'', ''Sony'', ''LG'', ''Dell'', ''HP'', ''Lenovo'', ''Nike'',
     ''Adidas'', ''Bosch'', ''Philips'', ''Dyson'', ''Logitech'', ''Anker'', ''Asus'',
     ''Acer'', ''Canon'', ''Nikon'', ''KitchenAid'', ''Cuisinart'', ''Instant Pot'',
     ''Razer'', ''Corsair'', ''New Balance'', ''Puma'']"

definition topics :: "jsstring list" where
  "topics = map js
    [''how to make sourdough starter'', ''why do cats knead blankets'',
     ''history of the silk road'', ''best time to visit iceland'', ''how to learn piano'',
     ''moon phases calendar'', ''chess opening for beginners'', ''what is photosynthesis'',
     ''stoicism basics'', ''meditation breathing technique'',
     ''python list comprehension'', ''linux fish shell tips'',
     ''how to fix a leaky faucet'', ''volcanoes around the world'',
     ''recipe for ramen broth'', ''difference between espresso and coffee'',
     ''how to train for a 5k'', ''minimalist capsule wardrobe'',
     ''book recommendations sci fi'', ''how to grow basil indoors'']"

definition locations :: "jsstring list" where
  "locations = map js
    [''near me'', ''in tokyo'', ''in berlin'', ''in new york'', ''in london'',
     ''in san francisco'', ''in sydney'', ''in toronto'']"

subsection \<open>Seed phrases\<close>

definition normalizeSeedLine :: "jsstring \<Rightarrow> jsstring option" where
  "normalizeSeedLine line =
     (let s = trim line in
      if s = [] then None
      else if startsWith_hash s then None
      else Some s)"

text \<open>
  \<open>Boolean(x)\<close> for \<open>x\<close> a string or \<open>undefined\<close>: the filter of
  \<open>loadSeedPhrases\<close>, and the test of \<open>x ? ... : ...\<close>.
\<close>

definition truthy :: "jsstring option \<Rightarrow> bool" where
  "truthy x = (case x of None \<Rightarrow> False | Some s \<Rightarrow> s \<noteq> [])"

text \<open>
  The file system is a parameter: \<open>readFile\<close> gives the content of a path, or the
  error \<open>fs.promises.readFile\<close> rejects with.  The \<open>try\<close> block of the source
  turns every such error into the empty list.
\<close>

definition loadSeedPhrases :: "(jsstring \<Rightarrow> error + jsstring) \<Rightarrow> jsstring option \<Rightarrow> jsstring list" where
  "loadSeedPhrases readFile seedFile =
     (if \<not> truthy seedFile then []
      else (case readFile (the seedFile) of
              Inl e \<Rightarrow> []
            | Inr content \<Rightarrow>
                map the (filter truthy (map normalizeSeedLine (split_lines content)))))"

subsection \<open>One query\<close>

definition draw :: "(real, rng) eff" where
  "draw = liftS rng_call"

text \<open>\<open>rng() < p ? m : undefined\<close>.\<close>

definition with_probability :: "real \<Rightarrow> ('a, rng) eff \<Rightarrow> ('a option, rng) eff" where
  "with_probability p m =
     bindE draw (\<lambda>u. if u < p then bindE m (\<lambda>x. returnE (Some x)) else returnE None)"

text \<open>\<open>x ?? ""\<close>, and \<open>x ? `${x} ` : ""\<close>.\<close>

definition or_empty :: "jsstring option \<Rightarrow> jsstring" where
  "or_empty x = (case x of None \<Rightarrow> [] | Some s \<Rightarrow> s)"

definition with_space_after :: "jsstring option \<Rightarrow> jsstring" where
  "with_space_after x = (if truthy x then the x @ js '' '' else [])"

text \<open>The local constants of \<open>templateQuery\<close> that its pattern closures capture.\<close>

record locals =
  seed :: "jsstring option"
  category :: jsstring
  adjective :: jsstring
  intent :: jsstring
  brand :: "jsstring option"
  priceCap :: "jsstring option"
  year :: "jsstring option"
  location :: "jsstring option"
  topic :: "jsstring option"
  unrelatedFragment :: "jsstring option"

definition draw_locals :: "jsstring list \<Rightarrow> (locals, rng) eff" where
  "draw_locals seedPhrases =
     bindE (if length seedPhrases \<noteq> 0
            then bindE (\<lambda>g. randomChoice g seedPhrases) (\<lambda>s. returnE (Some s))
            else returnE None) (\<lambda>seed'.
     bindE (\<lambda>g. randomChoice g categories) (\<lambda>category'.
     bindE (\<lambda>g. randomChoice g adjectives) (\<lambda>adjective'.
     bindE (\<lambda>g. randomChoice g intents) (\<lambda>intent'.
     bindE (with_probability (35 / 100) (\<lambda>g. randomChoice g brands)) (\<lambda>brand'.
     bindE (with_probability (25 / 100)
              (bindE (\<lambda>g. randomChoice g [25, 50, 100, 200, 300, 500, 1000])
                 (\<lambda>n. returnE (js ''under $'' @ String_of_int n)))) (\<lambda>priceCap'.
     bindE (with_probability (2 / 10)
              (bindE (\<lambda>g. randomChoice g [2024, 2025])
                 (\<lambda>n. returnE (String_of_int n)))) (\<lambda>year'.
     bindE (with_probability (2 / 10) (\<lambda>g. randomChoice g locations)) (\<lambda>location'.
     bindE (with_probability (35 / 100) (\<lambda>g. randomChoice g topics)) (\<lambda>topic'.
     bindE (with_probability (28 / 100)
              (\<lambda>g. randomChoice g (map js [''for beginners'', ''explained'', ''meaning'',
                 ''tips'', ''checklist'', ''guide'', ''vs'', ''and'', ''ideas'']))) (\<lambda>unrelatedFragment'.
     returnE \<lparr>seed = seed', category = category', adjective = adjective',
       intent = intent', brand = brand', priceCap = priceCap', year = year',
       location = location', topic = topic',
       unrelatedFragment = unrelatedFragment'\<rparr>))))))))))"

text \<open>\<open>topic ?? randomChoice(rng, topics)\<close>: the draw happens only without a topic.\<close>

definition topic_or_random :: "locals \<Rightarrow> (jsstring, rng) eff" where
  "topic_or_random l =
     (case topic l of Some t \<Rightarrow> returnE t | None \<Rightarrow> (\<lambda>g. randomChoice g topics))"

definition patterns :: "locals \<Rightarrow> (jsstring, rng) eff list" where
  "patterns l =
     [returnE (trim (adjective l @ js '' '' @ category l @ js '' '' @ or_empty (year l))),
      returnE (trim (with_space_after (brand l) @ category l @ js '' '' @ intent l)),
      returnE (trim (category l @ js '' '' @ intent l @ js '' '' @ or_empty (priceCap l))),
      returnE (trim (with_space_after (seed l) @ category l @ js '' '' @ intent l)),
      returnE (trim (adjective l @ js '' '' @ with_space_after (brand l) @ category l
                      @ js '' '' @ intent l)),
      returnE (trim (category l @ js '' '' @ intent l @ js '' '' @ or_empty (year l))),
      bindE (\<lambda>g. randomChoice g (map js [''why'', ''how'', ''what'', ''when''])) (\<lambda>w.
        bindE (topic_or_random l) (\<lambda>t.
          returnE (collapse_spaces (trim (category l @ js '' '' @ w @ js '' '' @ t))))),
      bindE (topic_or_random l) (\<lambda>t. returnE (trim (t @ js '' '' @ category l))),
      returnE (trim (category l @ js '' '' @ or_empty (location l) @ js '' '' @ intent l)),
      bindE (topic_or_random l) (\<lambda>t.
        returnE (trim (with_space_after (seed l) @ t @ js '' '' @ category l))),
      returnE (collapse_spaces (trim (adjective l @ js '' '' @ category l @ js '' ''
                 @ or_empty (unrelatedFragment l) @ js '' ''
                 @ (if truthy (topic l) then js '' '' @ the (topic l) else [])))),
      bindE (\<lambda>g. randomChoice g categories) (\<lambda>a.
        bindE (\<lambda>g. randomChoice g topics) (\<lambda>b.
          bindE (\<lambda>g. randomChoice g (map js [''and'', ''vs'', ''with'', ''for''])) (\<lambda>glue.
            returnE (trim (a @ js '' '' @ glue @ js '' '' @ b)))))]"

text \<open>The two optional suffixes and the final normalisation.\<close>

definition decorate :: "jsstring \<Rightarrow> (jsstring, rng) eff" where
  "decorate q0 =
     bindE draw (\<lambda>u.
     bindE (if u < 25 / 100
            then bindE (\<lambda>g. randomChoice g (map js [''review'', ''comparison'', ''specs'',
                          ''warranty'', ''setup'', ''troubleshooting'']))
                   (\<lambda>x. returnE (q0 @ js '' '' @ x))
            else returnE q0) (\<lambda>q1.
     bindE draw (\<lambda>v.
     bindE (if v < 2 / 10
            then bindE (liftS (\<lambda>g. randomInt g (Finite 2) (Finite 128)))
                   (\<lambda>n. returnE (q1 @ js '' '' @ String_of_number n))
            else returnE q1) (\<lambda>q2.
     returnE (trim (collapse_spaces q2))))))"

definition templateQuery :: "rng \<Rightarrow> jsstring list \<Rightarrow> (error + jsstring) \<times> rng" where
  "templateQuery g seedPhrases =
     bindE (draw_locals seedPhrases) (\<lambda>l.
     bindE (\<lambda>g. randomChoice g (patterns l)) (\<lambda>pattern.
     bindE pattern decorate)) g"

text \<open>
  The query source closes over the generator and the seed phrases loaded once;
  \<open>nextQuery\<close> advances the generator and leaves the phrases alone.
\<close>

record query_source =
  qs_rng :: rng
  qs_seedPhrases :: "jsstring list"

definition buildQuerySource ::
    "(jsstring \<Rightarrow> error + jsstring) \<Rightarrow> jsstring option \<Rightarrow> rng \<Rightarrow> query_source" where
  "buildQuerySource readFile seedFile g =
     \<lparr>qs_rng = g, qs_seedPhrases = loadSeedPhrases readFile seedFile\<rparr>"

definition nextQuery :: "query_source \<Rightarrow> (error + jsstring) \<times> query_source" where
  "nextQuery qs =
     (case templateQuery (qs_rng qs) (qs_seedPhrases qs) of
        (r, g') \<Rightarrow> (r, qs\<lparr>qs_rng := g'\<rparr>))"

text \<open>The results of the first \<open>n\<close> calls of \<open>nextQuery\<close>.\<close>

fun queries :: "nat \<Rightarrow> query_source \<Rightarrow> (error + jsstring) list" where
  "queries 0 qs = []"
| "queries (Suc n) qs = (case nextQuery qs of (r, qs') \<Rightarrow> r # queries n qs')"

section \<open>The session loop\<close>

subsection \<open>Configuration, events and the browser\<close>

record RunConfig =
  braveExecutablePath :: jsstring
  braveUserDataDir :: jsstring
  braveProfileDirectory :: jsstring
  headless :: bool
  locale' :: jsstring
  cleanSingletons :: bool
  maxQueries :: real
  minDwellMs :: real
  maxDwellMs :: real
  minBetweenQueriesMs :: real
  maxBetweenQueriesMs :: real
  maxProductOpensPerQuery :: real
  maxScrollsPerPage :: real
  maxPagesPerQuery :: real
  seedFile :: "jsstring option"
  logVisitedUrls :: bool

definition defaultConfig :: RunConfig where
  "defaultConfig =
     \<lparr>braveExecutablePath = [], braveUserDataDir = [],
      braveProfileDirectory = js ''Default'', headless = False, locale' = js ''en-US'',
      cleanSingletons = False, maxQueries = 100, minDwellMs = 1000, maxDwellMs = 5000,
      minBetweenQueriesMs = 7000, maxBetweenQueriesMs = 15000,
      maxProductOpensPerQuery = 2, maxScrollsPerPage = 8, maxPagesPerQuery = 2,
      seedFile = None, logVisitedUrls = False\<rparr>"

text \<open>
  The events \<open>log\<close> writes (the time stamp is left out), and the actions of a run
  that are observed: the events logged, the pauses of \<open>sleep\<close>, the wheel motions
  and the product link chosen by \<open>productLinks.nth\<close>.
\<close>

datatype event =
  QueryStart jsstring jsstring
| QueryEnd jsstring
| QueryError jsstring jsstring

datatype action =
  Log event
| Sleep number
| Wheel number number
| NthLink number

datatype page = SessionPage | OtherPage nat

datatype consent_button = RejectButton | AcceptButton

text \<open>
  The browser (Playwright's page and context) and the string functions of the platform
  are parameters of the model: a state \<open>'w\<close> of the browser and, for every call the
  session makes, what it returns or throws and the state it leaves.  Timeouts are part of
  that behaviour.  \<open>link_click_and_wait\<close> is the click on the product link together with
  the two bounded waits around it (each with its own \<open>catch\<close>): it tells whether a
  new page appeared.  \<open>next_click_and_wait\<close> is the \<open>Promise.allSettled\<close> of the
  click on the next-page link and the wait for the navigation.
\<close>

record 'w browser =
  encodeURIComponent :: "jsstring \<Rightarrow> error + jsstring"
  toLowerCase :: "jsstring \<Rightarrow> jsstring"
  context_addInitScript :: "(unit, 'w) eff"
  context_newPage :: "(unit, 'w) eff"
  context_pages :: "'w \<Rightarrow> page list"
  page_goto :: "jsstring \<Rightarrow> (unit, 'w) eff"
  page_url :: "'w \<Rightarrow> jsstring"
  page_close :: "page \<Rightarrow> (unit, 'w) eff"
  page_bringToFront :: "(unit, 'w) eff"
  page_goBack :: "(unit, 'w) eff"
  body_innerText :: "(jsstring, 'w) eff"
  button_isVisible :: "consent_button \<Rightarrow> (bool, 'w) eff"
  button_click :: "consent_button \<Rightarrow> (unit, 'w) eff"
  productLinks_count :: "(int, 'w) eff"
  link_scrollIntoViewIfNeeded :: "number \<Rightarrow> (unit, 'w) eff"
  link_click_and_wait :: "number \<Rightarrow> 'w \<Rightarrow> bool \<times> 'w"
  popup_waitForLoadState :: "(unit, 'w) eff"
  mouse_wheel :: "number \<Rightarrow> number \<Rightarrow> (unit, 'w) eff"
  next_isVisible :: "(bool, 'w) eff"
  next_click_and_wait :: "'w \<Rightarrow> 'w"

text \<open>
  The state of a run: the generator, the private state of the query source, the browser
  and the actions so far.  A query source is a computation on its own state and the
  generator, which it may share with the session (\<open>run.ts\<close> passes the same generator to
  \<open>buildQuerySource\<close> and to \<open>runShoppingSession\<close>).
\<close>

record ('w, 'q) session =
  s_rng :: rng
  s_source :: 'q
  s_world :: 'w
  s_trace :: "action list"

type_synonym 'q QuerySource = "(jsstring, 'q \<times> rng) eff"

definition templateQuerySource :: "(jsstring list) QuerySource" where
  "templateQuerySource = (\<lambda>(seedPhrases, g).
     case templateQuery g seedPhrases of (r, g') \<Rightarrow> (r, (seedPhrases, g')))"

definition in_world :: "('a, 'w) eff \<Rightarrow> ('a, ('w, 'q) session) eff" where
  "in_world m s = (case m (s_world s) of (r, w') \<Rightarrow> (r, s\<lparr>s_world := w'\<rparr>))"

definition with_rng :: "(rng \<Rightarrow> 'a \<times> rng) \<Rightarrow> ('a, ('w, 'q) session) eff" where
  "with_rng m s = (case m (s_rng s) of (x, g') \<Rightarrow> (Inr x, s\<lparr>s_rng := g'\<rparr>))"

definition call_nextQuery :: "'q QuerySource \<Rightarrow> (jsstring, ('w, 'q) session) eff" where
  "call_nextQuery source s =
     (case source (s_source s, s_rng s) of
        (r, (q', g')) \<Rightarrow> (r, s\<lparr>s_rng := g', s_source := q'\<rparr>))"

definition emit :: "action \<Rightarrow> (unit, ('w, 'q) session) eff" where
  "emit a s = (Inr (), s\<lparr>s_trace := s_trace s @ [a]\<rparr>)"

definition log_event :: "event \<Rightarrow> (unit, ('w, 'q) session) eff" where
  "log_event e = emit (Log e)"

text \<open>\<open>promise.catch(() => d)\<close>, and \<open>try { m } catch (err) { h(err) }\<close>.\<close>

definition catchE :: "('a, 's) eff \<Rightarrow> 'a \<Rightarrow> ('a, 's) eff" where
  "catchE m d s = (case m s of (Inl e, s') \<Rightarrow> (Inr d, s') | (Inr x, s') \<Rightarrow> (Inr x, s'))"

definition try_catch :: "('a, 's) eff \<Rightarrow> (error \<Rightarrow> ('a, 's) eff) \<Rightarrow> ('a, 's) eff" where
  "try_catch m h s = (case m s of (Inl e, s') \<Rightarrow> h e s' | (Inr x, s') \<Rightarrow> (Inr x, s'))"

subsection \<open>Pacing helpers of humanize.ts\<close>

definition sleep :: "number \<Rightarrow> (unit, ('w, 'q) session) eff" where
  "sleep ms = emit (Sleep ms)"

definition jitter :: "real \<Rightarrow> real \<Rightarrow> (unit, ('w, 'q) session) eff" where
  "jitter minMs maxMs = bindE (with_rng (\<lambda>g. randomInt g (Finite minMs) (Finite maxMs))) sleep"

fun humanScroll :: "'w browser \<Rightarrow> nat \<Rightarrow> (unit, ('w, 'q) session) eff" where
  "humanScroll B 0 = returnE ()"
| "humanScroll B (Suc steps) =
     bindE (with_rng (\<lambda>g. randomInt g (Finite 320) (Finite 980))) (\<lambda>dy.
     bindE (emit (Wheel (Finite 0) dy)) (\<lambda>_.
     bindE (in_world (mouse_wheel B (Finite 0) dy)) (\<lambda>_.
     bindE (jitter 250 900) (\<lambda>_.
     humanScroll B steps))))"

subsection \<open>The steps of one query\<close>

text \<open>\<open>s.includes(t)\<close>.\<close>

fun includes_str :: "jsstring \<Rightarrow> jsstring \<Rightarrow> bool" where
  "includes_str [] t = (t = [])"
| "includes_str (c # cs) t = (take (length t) (c # cs) = t \<or> includes_str cs t)"

text \<open>
  The test of the block-page regular expression with its \<open>i\<close> flag: the patterns are
  ASCII, so a code unit matches a pattern letter exactly when it is that letter in either
  case.
\<close>

definition ascii_lower :: "jschar \<Rightarrow> jschar" where
  "ascii_lower c = (if 0x41 \<le> c \<and> c \<le> 0x5A then c + 0x20 else c)"

definition block_text :: "jsstring \<Rightarrow> bool" where
  "block_text text =
     list_ex (includes_str (map ascii_lower text))
       (map js [''unusual traffic'', ''detected unusual traffic'', ''our systems have detected'',
                ''to continue, please'', ''not a robot''])"

definition getHlFromLocale :: "'w browser \<Rightarrow> jsstring \<Rightarrow> jsstring" where
  "getHlFromLocale B loc =
     (let lang = takeWhile (\<lambda>c. c \<noteq> 0x2D) loc in
      toLowerCase B (if lang = [] then js ''en'' else lang))"

definition isBlocked :: "'w browser \<Rightarrow> (bool, ('w, 'q) session) eff" where
  "isBlocked B s =
     (if includes_str (page_url B (s_world s)) (js ''/sorry/'') then (Inr True, s)
      else bindE (catchE (in_world (body_innerText B)) [])
             (\<lambda>text. returnE (block_text text)) s)"

definition maybeHandleConsent :: "'w browser \<Rightarrow> (unit, ('w, 'q) session) eff" where
  "maybeHandleConsent B =
     bindE (catchE (in_world (button_isVisible B RejectButton)) False) (\<lambda>reject.
     if reject then catchE (in_world (button_click B RejectButton)) ()
     else bindE (catchE (in_world (button_isVisible B AcceptButton)) False) (\<lambda>accept.
       if accept then catchE (in_world (button_click B AcceptButton)) ()
       else returnE ()))"

definition openRandomProduct :: "'w browser \<Rightarrow> (bool, ('w, 'q) session) eff" where
  "openRandomProduct B =
     bindE (catchE (in_world (productLinks_count B)) 0) (\<lambda>count.
     if count \<le> 0 then returnE False
     else
       bindE (with_rng (\<lambda>g. randomInt g (Finite 0) (Finite (real_of_int (min count 20 - 1))))) (\<lambda>idx.
       bindE (emit (NthLink idx)) (\<lambda>_.
       bindE (catchE (in_world (link_scrollIntoViewIfNeeded B idx)) ()) (\<lambda>_.
       bindE (jitter 200 900) (\<lambda>_.
       bindE (in_world (liftS (link_click_and_wait B idx))) (\<lambda>popup.
       if popup
       then bindE (catchE (in_world (popup_waitForLoadState B)) ()) (\<lambda>_. returnE True)
       else returnE True))))))"

definition returnFromProduct :: "'w browser \<Rightarrow> (unit, ('w, 'q) session) eff" where
  "returnFromProduct B s =
     (let pages = context_pages B (s_world s) in
      if length pages > 1 \<and> last pages \<noteq> SessionPage
      then bindE (catchE (in_world (page_close B (last pages))) ()) (\<lambda>_.
             catchE (in_world (page_bringToFront B)) ()) s
      else catchE (in_world (page_goBack B)) () s)"

definition clickNextPageIfPresent :: "'w browser \<Rightarrow> (bool, ('w, 'q) session) eff" where
  "clickNextPageIfPresent B =
     bindE (catchE (in_world (next_isVisible B)) False) (\<lambda>visible.
     if \<not> visible then returnE False
     else bindE (in_world (liftS (\<lambda>w. ((), next_click_and_wait B w)))) (\<lambda>_. returnE True))"

text \<open>The value of \<open>count\<close> in \<open>openRandomProduct\<close>: a failed count is 0.\<close>

definition counted_links :: "'w browser \<Rightarrow> 'w \<Rightarrow> int" where
  "counted_links B w = (case fst (productLinks_count B w) of Inl e \<Rightarrow> 0 | Inr c \<Rightarrow> c)"

definition blocked_error :: error where
  "blocked_error = new_Error ''Blocked/captcha detected on Google.''"

text \<open>
  The loop over the product opens of one page; the argument counts the iterations left.
  \<open>break\<close> ends the loop without an error.
\<close>

fun product_loop :: "'w browser \<Rightarrow> RunConfig \<Rightarrow> nat \<Rightarrow> (unit, ('w, 'q) session) eff" where
  "product_loop B config 0 = returnE ()"
| "product_loop B config (Suc n) =
     bindE (isBlocked B) (\<lambda>blocked.
     if blocked then throwE blocked_error
     else
       bindE (openRandomProduct B) (\<lambda>opened.
       if \<not> opened then returnE ()
       else
         bindE (jitter (minDwellMs config) (maxDwellMs config)) (\<lambda>_.
         bindE (returnFromProduct B) (\<lambda>_.
         bindE (jitter 500 2000) (\<lambda>_.
         product_loop B config n)))))"

text \<open>The three counts one query draws.\<close>

definition draw_pagesToBrowse :: "RunConfig \<Rightarrow> rng \<Rightarrow> number \<times> rng" where
  "draw_pagesToBrowse config g = randomInt g (Finite 1) (Finite (max 1 (maxPagesPerQuery config)))"

definition draw_scrolls :: "RunConfig \<Rightarrow> rng \<Rightarrow> number \<times> rng" where
  "draw_scrolls config g = randomInt g (Finite 2) (Finite (max 2 (maxScrollsPerPage config)))"

definition draw_productOpens :: "RunConfig \<Rightarrow> rng \<Rightarrow> number \<times> rng" where
  "draw_productOpens config g =
     randomInt g (Finite 0) (Finite (max 0 (maxProductOpensPerQuery config)))"

text \<open>
  How many times the body of \<open>for (let i = 0; i < n; i++)\<close> runs for a number
  \<open>n\<close>: not at all when \<open>n\<close> is NaN, \<open>-Infinity\<close> or not positive.  (With
  \<open>+Infinity\<close> the loop would not end; the three counts above are finite for every
  configuration, see \<open>draw_counts_finite\<close>.)
\<close>

fun loop_count :: "number \<Rightarrow> nat" where
  "loop_count (Finite x) = nat \<lceil>x\<rceil>"
| "loop_count n = 0"

text \<open>
  The loop over the result pages of one query; the argument is
  \<open>pagesToBrowse - p\<close>, the pages left including the current one.
\<close>

fun pages_loop :: "'w browser \<Rightarrow> RunConfig \<Rightarrow> nat \<Rightarrow> (unit, ('w, 'q) session) eff" where
  "pages_loop B config 0 = returnE ()"
| "pages_loop B config (Suc left) =
     bindE (with_rng (draw_scrolls config)) (\<lambda>scrolls.
     bindE (humanScroll B (loop_count scrolls)) (\<lambda>_.
     bindE (with_rng (draw_productOpens config)) (\<lambda>productOpens.
     bindE (product_loop B config (loop_count productOpens)) (\<lambda>_.
     if 0 < left
     then bindE (clickNextPageIfPresent B) (\<lambda>ok.
            if \<not> ok then returnE ()
            else bindE (jitter 1000 4000) (\<lambda>_. pages_loop B config left))
     else returnE ()))))"

definition search_url :: "'w browser \<Rightarrow> RunConfig \<Rightarrow> jsstring \<Rightarrow> error + jsstring" where
  "search_url B config query =
     (case encodeURIComponent B (getHlFromLocale B (locale' config)) of
        Inl e \<Rightarrow> Inl e
      | Inr hl \<Rightarrow>
          (case encodeURIComponent B query of
             Inl e \<Rightarrow> Inl e
           | Inr q \<Rightarrow> Inr (js ''https://www.google.com/search?tbm=shop&hl='' @ hl @ js ''&q='' @ q)))"

definition browseShoppingForQuery ::
    "'w browser \<Rightarrow> RunConfig \<Rightarrow> jsstring \<Rightarrow> (unit, ('w, 'q) session) eff" where
  "browseShoppingForQuery B config query =
     bindE (\<lambda>s. (search_url B config query, s)) (\<lambda>url.
     bindE (log_event (QueryStart query url)) (\<lambda>_.
     bindE (in_world (page_goto B url)) (\<lambda>_.
     bindE (maybeHandleConsent B) (\<lambda>_.
     bindE (isBlocked B) (\<lambda>blocked.
     if blocked then throwE blocked_error
     else
       bindE (with_rng (draw_pagesToBrowse config)) (\<lambda>pagesToBrowse.
       bindE (pages_loop B config (loop_count pagesToBrowse)) (\<lambda>_.
       bindE (jitter (minDwellMs config) (maxDwellMs config)) (\<lambda>_.
       log_event (QueryEnd query)))))))))"

subsection \<open>The loop over the queries\<close>

text \<open>
  The argument counts the iterations left.  An error of \<open>browseShoppingForQuery\<close> is
  caught, logged, and ends the loop (\<open>break\<close>); an error of the query source itself is
  outside the \<open>try\<close> block and leaves the function.
\<close>

fun session_loop ::
    "'w browser \<Rightarrow> RunConfig \<Rightarrow> 'q QuerySource \<Rightarrow> nat \<Rightarrow> (unit, ('w, 'q) session) eff" where
  "session_loop B config source 0 = returnE ()"
| "session_loop B config source (Suc n) =
     bindE (call_nextQuery source) (\<lambda>query.
     bindE (try_catch
              (bindE (browseShoppingForQuery B config query) (\<lambda>_. returnE True))
              (\<lambda>err. bindE (log_event (QueryError query (String_of_error err))) (\<lambda>_. returnE False)))
       (\<lambda>completed.
     if \<not> completed then returnE ()
     else bindE (jitter (minBetweenQueriesMs config) (maxBetweenQueriesMs config)) (\<lambda>_.
          session_loop B config source n)))"

text \<open>
  \<open>runShoppingSession\<close>.  The handler that logs a \<open>visited\<close> event for a navigation of
  the main frame runs inside the browser and is not part of the model; the loop runs
  \<open>\<lceil>maxQueries\<rceil>\<close> times at most.
\<close>

definition runShoppingSession ::
    "'w browser \<Rightarrow> RunConfig \<Rightarrow> 'q QuerySource \<Rightarrow> (unit, ('w, 'q) session) eff" where
  "runShoppingSession B config source =
     bindE (in_world (context_addInitScript B)) (\<lambda>_.
     bindE (in_world (context_newPage B)) (\<lambda>_.
     bindE (session_loop B config source (nat \<lceil>maxQueries config\<rceil>)) (\<lambda>_.
     catchE (in_world (page_close B SessionPage)) ())))"

section \<open>Two objects used side by side\<close>

text \<open>
  The outputs of the first \<open>n\<close> calls of a stateful object, and the outputs of two
  such objects whose calls are interleaved by a schedule: \<open>True\<close> calls the first
  object, \<open>False\<close> the second.  Each object has a state of its own, as the closure
  \<open>mulberry32\<close> returns has.
\<close>

fun outputs :: "('s \<Rightarrow> 'a \<times> 's) \<Rightarrow> nat \<Rightarrow> 's \<Rightarrow> 'a list" where
  "outputs step 0 s = []"
| "outputs step (Suc n) s = (case step s of (x, s') \<Rightarrow> x # outputs step n s')"

fun interleaved :: "('s \<Rightarrow> 'a \<times> 's) \<Rightarrow> bool list \<Rightarrow> 's \<Rightarrow> 's \<Rightarrow> 'a list \<times> 'a list" where
  "interleaved step [] s1 s2 = ([], [])"
| "interleaved step (b # bs) s1 s2 =
     (if b
      then (case step s1 of (x, s1') \<Rightarrow>
              (case interleaved step bs s1' s2 of (xs, ys) \<Rightarrow> (x # xs, ys)))
      else (case step s2 of (y, s2') \<Rightarrow>
              (case interleaved step bs s1 s2' of (xs, ys) \<Rightarrow> (xs, y # ys))))"

text \<open>The query source after \<open>n\<close> calls of \<open>nextQuery\<close>.\<close>

fun after_queries :: "nat \<Rightarrow> query_source \<Rightarrow> query_source" where
  "after_queries 0 qs = qs"
| "after_queries (Suc n) qs = after_queries n (snd (nextQuery qs))"

section \<open>Example inputs\<close>

text \<open>
  A file system with one seed file, the one of the specification: a comment, an empty
  line and a phrase.
\<close>

definition example_readFile :: "jsstring \<Rightarrow> error + jsstring" where
  "example_readFile path =
     (if path = js ''seeds.txt'' then Inr (js ''# comment\<newline>\<newline>wireless earbuds\<newline>'')
      else Inl (JsError (js ''Error'') (js ''ENOENT: no such file or directory'')))"

text \<open>
  A browser for the scenarios of the specification.  Its state counts the calls of
  \<open>page.goto\<close>; from the second call on, the page is the block page (its URL contains
  \<open>/sorry/\<close>).  It shows no consent dialog, no product link and no next-page link.
\<close>

definition example_browser :: "nat browser" where
  "example_browser =
     \<lparr>encodeURIComponent = Inr, toLowerCase = id,
      context_addInitScript = returnE (), context_newPage = returnE (),
      context_pages = (\<lambda>w. [SessionPage]),
      page_goto = (\<lambda>url w. (Inr (), Suc w)),
      page_url = (\<lambda>w. if 2 \<le> w then js ''https://www.google.com/sorry/index''
                       else js ''https://www.google.com/search''),
      page_close = (\<lambda>p. returnE ()), page_bringToFront = returnE (),
      page_goBack = returnE (), body_innerText = returnE (js ''results''),
      button_isVisible = (\<lambda>b. returnE False), button_click = (\<lambda>b. returnE ()),
      productLinks_count = returnE 0,
      link_scrollIntoViewIfNeeded = (\<lambda>i. returnE ()),
      link_click_and_wait = (\<lambda>i w. (False, w)),
      popup_waitForLoadState = returnE (),
      mouse_wheel = (\<lambda>dx dy. returnE ()),
      next_isVisible = returnE False, next_click_and_wait = id\<rparr>"

text \<open>A query source that returns the strings of a list in turn.\<close>

definition listed_queries :: "(jsstring list) QuerySource" where
  "listed_queries = (\<lambda>(qs, g).
     case qs of
       [] \<Rightarrow> (Inl (new_Error ''no more queries''), (qs, g))
     | q # rest \<Rightarrow> (Inr q, (rest, g)))"

definition example_config :: RunConfig where
  "example_config =
     defaultConfig\<lparr>maxQueries := 3, maxPagesPerQuery := 1, maxScrollsPerPage := 2,
       maxProductOpensPerQuery := 2, minDwellMs := 10, maxDwellMs := 20,
       minBetweenQueriesMs := 30, maxBetweenQueriesMs := 40\<rparr>"

definition example_session :: "(nat, jsstring list) session" where
  "example_session =
     \<lparr>s_rng = mulberry32 1, s_source = [js ''a'', js ''b'', js ''c''], s_world = 0,
      s_trace = []\<rparr>"

text \<open>
  The state of a run whose next \<open>page.goto\<close> reaches the block page, and a browser
  whose result page shows fifty product links.
\<close>

definition example_session_before_block :: "(nat, jsstring list) session" where
  "example_session_before_block =
     \<lparr>s_rng = mulberry32 1, s_source = [js ''b'', js ''c''], s_world = 1, s_trace = []\<rparr>"

definition example_browser_with_links :: "nat browser" where
  "example_browser_with_links = example_browser\<lparr>productLinks_count := returnE 50\<rparr>"

section \<open>Notions used in the statements and proofs\<close>

text \<open>
  A number that is an integer between two bounds.
\<close>

fun int_between :: "int \<Rightarrow> int \<Rightarrow> number \<Rightarrow> bool" where
  "int_between lo hi (Finite x) = (x = of_int \<lfloor>x\<rfloor> \<and> of_int lo \<le> x \<and> x \<le> of_int hi)"
| "int_between lo hi n = False"

text \<open>
  What \<open>randomInt\<close> computes from the draw \<open>u\<close> and the resolved bounds when the
  range is not empty.  The generator returns \<open>k / 2^32\<close> for a \<open>k\<close> below
  \<open>2^32\<close>; \<open>rng_numerator\<close> is the \<open>k\<close> of the next call, and
  \<open>randomInt_of_output k\<close> is what \<open>randomInt\<close> returns then.  The spread is even
  when every value of the range comes from \<open>\<lfloor>2^32 / n\<rfloor>\<close> or
  \<open>\<lfloor>2^32 / n\<rfloor> + 1\<close> of the \<open>2^32\<close> outputs, for a range of \<open>n\<close> values.
\<close>

definition scale_draw :: "real \<Rightarrow> number \<Rightarrow> number \<Rightarrow> number" where
  "scale_draw u mn mx = js_add (Math_floor (js_mul (Finite u) (js_add (js_sub mx mn) (Finite 1)))) mn"

definition rng_numerator :: "rng \<Rightarrow> nat" where
  "rng_numerator g = nat \<lfloor>fst (rng_call g) * 4294967296\<rfloor>"








text \<open>A string with at least one code unit that is not white space.\<close>

definition has_nonspace :: "jsstring \<Rightarrow> bool" where
  "has_nonspace s = list_ex (\<lambda>c. \<not> is_space c) s"

text \<open>A computation that, from the state \<open>s\<close>, returns a value satisfying \<open>P\<close>.\<close>

definition succeeds :: "('a \<Rightarrow> bool) \<Rightarrow> ('a, 's) eff \<Rightarrow> 's \<Rightarrow> bool" where
  "succeeds P m s = (case fst (m s) of Inl e \<Rightarrow> False | Inr x \<Rightarrow> P x)"

text \<open>
  Every action a computation adds to the trace satisfies \<open>P\<close>; the actions before it
  stay.
\<close>

definition all_new :: "(action \<Rightarrow> bool) \<Rightarrow> ('a, ('w, 'q) session) eff \<Rightarrow> bool" where
  "all_new P m \<longleftrightarrow> (\<forall>s. \<exists>new. s_trace (snd (m s)) = s_trace s @ new \<and> list_all P new)"

fun is_query_error :: "action \<Rightarrow> bool" where
  "is_query_error (Log (QueryError q d)) = True"
| "is_query_error _ = False"

fun is_query_start :: "action \<Rightarrow> bool" where
  "is_query_start (Log (QueryStart q u)) = True"
| "is_query_start _ = False"

text \<open>No \<open>query_start\<close> event comes after a \<open>query_error\<close> event.\<close>

fun no_start_after_error :: "action list \<Rightarrow> bool" where
  "no_start_after_error [] = True"
| "no_start_after_error (a # rest) =
     ((if is_query_error a then \<not> list_ex is_query_start rest else True)
      \<and> no_start_after_error rest)"


text \<open>The events among the actions of a trace.\<close>

fun events :: "action list \<Rightarrow> event list" where
  "events [] = []"
| "events (Log e # rest) = e # events rest"
| "events (a # rest) = events rest"


section \<open>Properties of the numbers\<close>

subsection \<open>Powers of two and binades\<close>

lemma pow2_powr: "pow2 e = 2 powr (real_of_int e)"
proof (cases "0 \<le> e")
  case True
  then show ?thesis by (simp add: pow2_def powr_realpow [symmetric])
next
  case False
  then have r: "real (nat (- e)) = - real_of_int e" by simp
  have "2 powr (real (nat (- e))) = 2 ^ nat (- e)" by (rule powr_realpow) simp
  then have "2 powr (- real_of_int e) = 2 ^ nat (- e)" by (simp only: r)
  then have "2 powr (real_of_int e) = 1 / 2 ^ nat (- e)"
    by (simp add: powr_minus_divide field_simps)
  then show ?thesis using False by (simp add: pow2_def)
qed

lemma pow2_pos [simp]: "0 < pow2 e"
  by (simp add: pow2_powr)

lemma pow2_add: "pow2 (a + b) = pow2 a * pow2 b"
  by (simp add: pow2_powr powr_add)

lemma pow2_diff: "pow2 (a - b) = pow2 a / pow2 b"
  by (simp add: pow2_powr powr_diff)

lemma pow2_mono: "a \<le> b \<Longrightarrow> pow2 a \<le> pow2 b"
  by (simp add: pow2_powr)

lemma pow2_less_iff: "pow2 a < pow2 b \<longleftrightarrow> a < b"
  by (simp add: pow2_powr)

lemma pow2_le_iff: "pow2 a \<le> pow2 b \<longleftrightarrow> a \<le> b"
  by (simp add: pow2_powr)

lemma pow2_nat: "pow2 (int n) = 2 ^ n"
  by (simp add: pow2_def)

lemma pow2_0 [simp]: "pow2 0 = 1"
  by (simp add: pow2_def)

lemma bit_length_bounds:
  "0 < n \<Longrightarrow> 2 ^ (bit_length n - 1) \<le> n \<and> n < 2 ^ bit_length n"
proof (induction n rule: bit_length.induct)
  case (1 n)
  show ?case
  proof (cases "n div 2 = 0")
    case True
    with 1 have "n = 1" by (auto simp: div_eq_0_iff)
    then show ?thesis by (simp add: bit_length.simps [of "Suc 0"] bit_length.simps [of 0])
  next
    case False
    then have pos: "0 < n div 2" by simp
    from 1 have n0: "n \<noteq> 0" by simp
    from 1(1) [OF n0 pos] have ih: "2 ^ (bit_length (n div 2) - 1) \<le> n div 2" "n div 2 < 2 ^ bit_length (n div 2)"
      by auto
    have bl: "bit_length n = Suc (bit_length (n div 2))"
      using n0 by (simp add: bit_length.simps [of n])
    have "0 < bit_length (n div 2)" using pos by (simp add: bit_length.simps [of "n div 2"])
    then obtain m where m: "bit_length (n div 2) = Suc m" by (cases "bit_length (n div 2)") auto
    from ih m have "2 * 2 ^ m \<le> 2 * (n div 2)" by simp
    also have "\<dots> \<le> n" by simp
    finally have lo: "2 ^ (bit_length n - 1) \<le> n" by (simp add: bl m)
    from ih(2) have "n div 2 + 1 \<le> 2 ^ bit_length (n div 2)" by simp
    then have "2 * (n div 2) + 2 \<le> 2 * 2 ^ bit_length (n div 2)" by simp
    moreover have "n \<le> 2 * (n div 2) + 1" by presburger
    ultimately have "n < 2 ^ bit_length n" by (simp add: bl)
    with lo show ?thesis by simp
  qed
qed

lemma bit_length_pos: "0 < n \<Longrightarrow> 0 < bit_length n"
  by (simp add: bit_length.simps [of n])

lemma binade_bounds:
  assumes "0 < x"
  shows "pow2 (binade x) \<le> x" and "x < pow2 (binade x + 1)"
proof -
  have "pow2 (binade x) \<le> x \<and> x < pow2 (binade x + 1)"
  proof (cases "1 \<le> x")
    case True
    define n where "n = nat \<lfloor>x\<rfloor>"
    have fl: "1 \<le> \<lfloor>x\<rfloor>" using True by linarith
    then have rn: "real n = of_int \<lfloor>x\<rfloor>" by (simp add: n_def)
    have n: "0 < n" "real n \<le> x" "x < real n + 1"
    proof -
      show "0 < n" using fl by (simp add: n_def)
      show "real n \<le> x" unfolding rn by linarith
      show "x < real n + 1" unfolding rn by linarith
    qed
    from bit_length_bounds [OF n(1)] have b: "2 ^ (bit_length n - 1) \<le> n" "n < 2 ^ bit_length n"
      by auto
    have e: "binade x = int (bit_length n) - 1" using True by (simp add: binade_def n_def)
    have e': "int (bit_length n) - 1 = int (bit_length n - 1)"
      using bit_length_pos [OF n(1)] by simp
    have "pow2 (binade x) = 2 ^ (bit_length n - 1)" by (simp add: e e' pow2_nat del: of_nat_diff)
    also have "\<dots> \<le> real n" using b(1) by (metis of_nat_le_iff of_nat_numeral of_nat_power)
    finally have lo: "pow2 (binade x) \<le> x" using n(2) by simp
    have "binade x + 1 = int (bit_length n)" by (simp add: e)
    then have "pow2 (binade x + 1) = 2 ^ bit_length n" by (simp add: pow2_nat)
    moreover have "real n + 1 \<le> 2 ^ bit_length n"
      using b(2) by (metis Suc_leI of_nat_Suc of_nat_le_iff of_nat_numeral of_nat_power add.commute)
    ultimately have "x < pow2 (binade x + 1)" using n(3) by simp
    with lo show ?thesis by simp
  next
    case False
    define c where "c = nat (\<lceil>1 / x\<rceil> - 1)"
    have inv: "1 < 1 / x" using False assms by simp
    have c2: "2 \<le> \<lceil>1 / x\<rceil>" using inv by linarith
    have c3: "0 \<le> \<lceil>1 / x\<rceil> - 1" using c2 by linarith
    have "real c = of_int (\<lceil>1 / x\<rceil> - 1)" unfolding c_def by (rule of_nat_nat [OF c3])
    then have rc: "real c = of_int \<lceil>1 / x\<rceil> - 1" by simp
    have c: "0 < c" "real c < 1 / x" "1 / x \<le> real c + 1"
    proof -
      show "0 < c" unfolding c_def using c2 by linarith
      show "real c < 1 / x" unfolding rc by linarith
      show "1 / x \<le> real c + 1" unfolding rc by linarith
    qed
    from bit_length_bounds [OF c(1)] have b: "2 ^ (bit_length c - 1) \<le> c" "c < 2 ^ bit_length c"
      by auto
    define m where "m = bit_length c"
    have mpos: "0 < m" unfolding m_def by (rule bit_length_pos [OF c(1)])
    have e: "binade x = - int m" using False by (simp add: binade_def c_def m_def)
    have "real c + 1 \<le> 2 ^ m"
      using b(2) unfolding m_def by (metis Suc_leI of_nat_Suc of_nat_le_iff of_nat_numeral of_nat_power add.commute)
    then have "1 / x \<le> 2 ^ m" using c(3) by simp
    then have "1 / 2 ^ m \<le> x" using assms
      by (simp add: field_simps)
    moreover have "pow2 (binade x) = 1 / 2 ^ m" using mpos by (simp add: e pow2_def)
    ultimately have lo: "pow2 (binade x) \<le> x" by simp
    have "(2::real) ^ (m - 1) \<le> real c"
      using b(1) unfolding m_def by (metis of_nat_le_iff of_nat_numeral of_nat_power)
    then have "2 ^ (m - 1) < 1 / x" using c(2) by linarith
    then have "x < 1 / 2 ^ (m - 1)" using assms by (simp add: field_simps)
    moreover have "pow2 (binade x + 1) = 1 / 2 ^ (m - 1)"
    proof (cases "m = 1")
      case True then show ?thesis by (simp add: e)
    next
      case False
      with mpos have "binade x + 1 < 0" "nat (- (binade x + 1)) = m - 1" by (auto simp: e)
      then show ?thesis by (simp add: pow2_def)
    qed
    ultimately show ?thesis using lo by simp
  qed
  then show "pow2 (binade x) \<le> x" and "x < pow2 (binade x + 1)" by auto
qed

lemma binade_unique:
  assumes "pow2 e \<le> x" "x < pow2 (e + 1)"
  shows "binade x = e"
proof -
  have x: "0 < x" using assms(1) pow2_pos [of e] by linarith
  from binade_bounds [OF x] assms have "pow2 e < pow2 (binade x + 1)" "pow2 (binade x) < pow2 (e + 1)"
    by linarith+
  then show ?thesis by (simp add: pow2_less_iff)
qed

lemma binade_mono:
  assumes "0 < x" "x \<le> y"
  shows "binade x \<le> binade y"
proof -
  have y: "0 < y" using assms by linarith
  from binade_bounds [OF assms(1)] binade_bounds [OF y] assms(2)
  have "pow2 (binade x) < pow2 (binade y + 1)" by linarith
  then show ?thesis by (simp add: pow2_less_iff)
qed

subsection \<open>Rounding to an integer and to a multiple of the unit in the last place\<close>

lemma round_even_err: "\<bar>of_int (round_even t) - t\<bar> \<le> 1 / 2"
  unfolding round_even_def Let_def by (auto split: if_splits)

lemma round_even_ge: "of_int z \<le> t \<Longrightarrow> z \<le> round_even t"
proof -
  assume "of_int z \<le> t"
  then have "z \<le> \<lfloor>t\<rfloor>" by (simp add: le_floor_iff)
  then show ?thesis unfolding round_even_def Let_def by (auto split: if_splits)
qed

lemma round_even_le: "t \<le> of_int z \<Longrightarrow> round_even t \<le> z"
proof -
  assume a: "t \<le> of_int z"
  show ?thesis
  proof (cases "t = of_int \<lfloor>t\<rfloor>")
    case True
    then have "round_even t = \<lfloor>t\<rfloor>" unfolding round_even_def Let_def by simp
    moreover have "\<lfloor>t\<rfloor> \<le> z" using a by (simp add: floor_le_iff)
    ultimately show ?thesis by simp
  next
    case False
    then have "of_int \<lfloor>t\<rfloor> < t" using of_int_floor_le [of t] by linarith
    then have "of_int \<lfloor>t\<rfloor> < (of_int z :: real)" using a by linarith
    then have "\<lfloor>t\<rfloor> < z" by simp
    then have "\<lfloor>t\<rfloor> + 1 \<le> z" by simp
    moreover have "round_even t \<le> \<lfloor>t\<rfloor> + 1" unfolding round_even_def Let_def by auto
    ultimately show ?thesis by linarith
  qed
qed

lemma round_even_of_int [simp]: "round_even (of_int z) = z"
  unfolding round_even_def Let_def by simp

lemma round_even_nonneg: "0 \<le> t \<Longrightarrow> 0 \<le> round_even t"
  using round_even_ge [of 0 t] by simp

lemma exponent_ge: "- 1022 \<le> exponent x"
  by (simp add: exponent_def)

lemma ulp_pos [simp]: "0 < ulp x"
  by (simp add: ulp_def)

lemma ulp_nonzero [simp]: "ulp x \<noteq> 0"
  using ulp_pos [of x] by linarith

lemma pow2_numeral: "pow2 (numeral n) = 2 ^ numeral n"
  by (simp add: pow2_def)

lemma scaled_less:
  assumes "0 < x"
  shows "x < 2 ^ 53 * ulp x"
proof -
  have "x < pow2 (binade x + 1)" by (rule binade_bounds [OF assms])
  also have "\<dots> \<le> pow2 (exponent x + 1)"
    using assms by (intro pow2_mono) (simp add: exponent_def)
  also have "\<dots> = pow2 53 * ulp x"
  proof -
    have "exponent x + 1 = 53 + (exponent x - 52)" by simp
    then show ?thesis unfolding ulp_def by (simp only: pow2_add)
  qed
  finally show ?thesis by (simp add: pow2_numeral)
qed

lemma scaled_ge:
  assumes "pow2 (- 1022) \<le> x"
  shows "2 ^ 52 * ulp x \<le> x" and "exponent x = binade x"
proof -
  have x: "0 < x" using assms pow2_pos [of "- 1022"] by linarith
  have "pow2 (- 1022) < pow2 (binade x + 1)" using binade_bounds(2) [OF x] assms by linarith
  then have "- 1022 \<le> binade x" by (simp add: pow2_less_iff)
  then show e: "exponent x = binade x" using x by (simp add: exponent_def)
  have "pow2 52 * ulp x = pow2 (exponent x)"
  proof -
    have "exponent x = 52 + (exponent x - 52)" by simp
    then show ?thesis unfolding ulp_def by (simp only: pow2_add [symmetric])
  qed
  also have "\<dots> \<le> x" unfolding e by (rule binade_bounds [OF x])
  finally show "2 ^ 52 * ulp x \<le> x" by (simp add: pow2_numeral)
qed

lemma round_magnitude_nonneg: "0 \<le> round_magnitude x"
  unfolding round_magnitude_def
  by (intro mult_nonneg_nonneg) (simp_all add: round_even_nonneg less_imp_le)

lemma round_magnitude_err: "\<bar>round_magnitude x - \<bar>x\<bar>\<bar> \<le> ulp x / 2"
proof -
  have "\<bar>of_int (round_even (\<bar>x\<bar> / ulp x)) - \<bar>x\<bar> / ulp x\<bar> \<le> 1 / 2" by (rule round_even_err)
  then have "\<bar>of_int (round_even (\<bar>x\<bar> / ulp x)) - \<bar>x\<bar> / ulp x\<bar> * ulp x \<le> 1 / 2 * ulp x"
    by (intro mult_right_mono) (simp_all add: less_imp_le)
  moreover have "\<bar>of_int (round_even (\<bar>x\<bar> / ulp x)) - \<bar>x\<bar> / ulp x\<bar> * ulp x
      = \<bar>round_magnitude x - \<bar>x\<bar>\<bar>"
  proof -
    have "\<bar>of_int (round_even (\<bar>x\<bar> / ulp x)) - \<bar>x\<bar> / ulp x\<bar> * ulp x
        = \<bar>(of_int (round_even (\<bar>x\<bar> / ulp x)) - \<bar>x\<bar> / ulp x) * ulp x\<bar>"
      by (simp add: abs_mult less_imp_le)
    also have "(of_int (round_even (\<bar>x\<bar> / ulp x)) - \<bar>x\<bar> / ulp x) * ulp x
        = round_magnitude x - \<bar>x\<bar>"
      unfolding round_magnitude_def by (simp add: left_diff_distrib)
    finally show ?thesis .
  qed
  ultimately show ?thesis by simp
qed

lemma round_magnitude_upper:
  assumes "pow2 (- 1022) \<le> x"
  shows "round_magnitude x \<le> x + x / 2 ^ 53"
proof -
  have x: "0 < x" using assms pow2_pos [of "- 1022"] by linarith
  have "round_magnitude x \<le> x + ulp x / 2" using round_magnitude_err [of x] x by linarith
  moreover have "ulp x \<le> x / 2 ^ 52" using scaled_ge(1) [OF assms] by (simp add: field_simps)
  ultimately show ?thesis by simp
qed

lemma round_magnitude_le_next:
  assumes "0 < x"
  shows "round_magnitude x \<le> 2 ^ 53 * ulp x"
proof -
  have "x / ulp x \<le> of_int (2 ^ 53)" using scaled_less [OF assms] by (simp add: field_simps)
  then have "round_even (\<bar>x\<bar> / ulp x) \<le> 2 ^ 53" using assms by (simp add: round_even_le)
  then have "(of_int (round_even (\<bar>x\<bar> / ulp x)) :: real) \<le> of_int (2 ^ 53)" by (simp only: of_int_le_iff)
  then show ?thesis unfolding round_magnitude_def
    by (simp add: mult_right_mono less_imp_le)
qed

lemma round_magnitude_ge_binade:
  assumes "pow2 (- 1022) \<le> x"
  shows "2 ^ 52 * ulp x \<le> round_magnitude x"
proof -
  have x: "0 < x" using assms pow2_pos [of "- 1022"] by linarith
  have "of_int (2 ^ 52) \<le> x / ulp x" using scaled_ge(1) [OF assms] by (simp add: field_simps)
  then have "2 ^ 52 \<le> round_even (\<bar>x\<bar> / ulp x)" using x by (simp add: round_even_ge)
  then have "(of_int (2 ^ 52) :: real) \<le> of_int (round_even (\<bar>x\<bar> / ulp x))" by (simp only: of_int_le_iff)
  then show ?thesis unfolding round_magnitude_def
    by (simp add: mult_right_mono less_imp_le)
qed

subsection \<open>Rounding never passes a double\<close>

lemma exponent_mono:
  assumes "0 < x" "x \<le> y"
  shows "exponent x \<le> exponent y"
  using binade_mono [OF assms] assms by (simp add: exponent_def max.coboundedI1)

lemma exponent_normal:
  assumes "- 1022 < exponent x" "0 < x"
  shows "pow2 (exponent x) \<le> x"
proof -
  from assms have "exponent x = binade x" by (simp add: exponent_def max_def split: if_splits)
  then show ?thesis using binade_bounds(1) [OF assms(2)] by simp
qed

lemma pow2_53_ulp: "2 ^ 53 * ulp x = pow2 (exponent x + 1)"
proof -
  have "exponent x + 1 = 53 + (exponent x - 52)" by simp
  then have "pow2 (exponent x + 1) = pow2 53 * ulp x" unfolding ulp_def by (simp only: pow2_add)
  then show ?thesis by (simp add: pow2_numeral)
qed

lemma pow2_52_ulp: "2 ^ 52 * ulp x = pow2 (exponent x)"
proof -
  have "exponent x = 52 + (exponent x - 52)" by simp
  then have "pow2 (exponent x) = pow2 52 * ulp x" unfolding ulp_def by (simp only: pow2_add [symmetric])
  then show ?thesis by (simp add: pow2_numeral)
qed

lemma round_magnitude_le_next':
  "0 < x \<Longrightarrow> round_magnitude x \<le> pow2 (exponent x + 1)"
  using round_magnitude_le_next [of x] by (simp only: pow2_53_ulp)

lemma round_magnitude_ge_binade':
  "pow2 (- 1022) \<le> x \<Longrightarrow> pow2 (exponent x) \<le> round_magnitude x"
  using round_magnitude_ge_binade [of x] by (simp only: pow2_52_ulp)

lemma scaled_less':
  "0 < x \<Longrightarrow> x < pow2 (exponent x + 1)"
  using scaled_less [of x] by (simp only: pow2_53_ulp)

lemma fixed_point_scaled:
  assumes "0 < y" "round_magnitude y = y"
  shows "y / ulp y = of_int (round_even (y / ulp y))"
proof -
  from assms have "of_int (round_even (y / ulp y)) * ulp y = y"
    by (simp add: round_magnitude_def)
  then show ?thesis by (simp add: field_simps)
qed

lemma round_up_to_double:
  assumes "0 < x" "x \<le> y" "round_magnitude y = y"
  shows "round_magnitude x \<le> y"
proof -
  have y: "0 < y" using assms by linarith
  have le: "exponent x \<le> exponent y" by (rule exponent_mono [OF assms(1,2)])
  show ?thesis
  proof (cases "exponent x = exponent y")
    case True
    then have u: "ulp x = ulp y" by (simp add: ulp_def)
    have "x / ulp y \<le> y / ulp y" using assms(2) by (simp add: divide_right_mono less_imp_le)
    also have "\<dots> = of_int (round_even (y / ulp y))" by (rule fixed_point_scaled [OF y assms(3)])
    finally have "round_even (x / ulp y) \<le> round_even (y / ulp y)" by (rule round_even_le)
    then have "(of_int (round_even (x / ulp y)) :: real) \<le> of_int (round_even (y / ulp y))"
      by (simp only: of_int_le_iff)
    then have "of_int (round_even (x / ulp y)) * ulp y \<le> of_int (round_even (y / ulp y)) * ulp y"
      by (rule mult_right_mono) (simp add: less_imp_le)
    then have "round_magnitude x \<le> round_magnitude y"
      using assms(1) y by (simp add: round_magnitude_def u)
    then show ?thesis using assms(3) by simp
  next
    case False
    with le have lt: "exponent x + 1 \<le> exponent y" by simp
    have "- 1022 < exponent y" using lt exponent_ge [of x] by linarith
    then have "pow2 (exponent y) \<le> y" by (rule exponent_normal [OF _ y])
    moreover have "pow2 (exponent x + 1) \<le> pow2 (exponent y)" by (rule pow2_mono [OF lt])
    moreover have "round_magnitude x \<le> pow2 (exponent x + 1)"
      by (rule round_magnitude_le_next' [OF assms(1)])
    ultimately show ?thesis by linarith
  qed
qed

lemma round_down_to_double:
  assumes "0 < y" "y \<le> x" "round_magnitude y = y"
  shows "y \<le> round_magnitude x"
proof -
  have x: "0 < x" using assms by linarith
  have le: "exponent y \<le> exponent x" by (rule exponent_mono [OF assms(1,2)])
  show ?thesis
  proof (cases "exponent y = exponent x")
    case True
    then have u: "ulp y = ulp x" by (simp add: ulp_def)
    have "of_int (round_even (y / ulp y)) = y / ulp y"
      by (rule fixed_point_scaled [OF assms(1,3), symmetric])
    also have "\<dots> \<le> x / ulp x" unfolding u using assms(2) by (simp add: divide_right_mono less_imp_le)
    finally have "round_even (y / ulp y) \<le> round_even (x / ulp x)" by (rule round_even_ge)
    then have "(of_int (round_even (y / ulp y)) :: real) \<le> of_int (round_even (x / ulp x))"
      by (simp only: of_int_le_iff)
    then have "of_int (round_even (y / ulp y)) * ulp x \<le> of_int (round_even (x / ulp x)) * ulp x"
      by (rule mult_right_mono) (simp add: less_imp_le)
    then have "round_magnitude y \<le> round_magnitude x"
      using assms(1) x by (simp add: round_magnitude_def u)
    then show ?thesis using assms(3) by simp
  next
    case False
    with le have lt: "exponent y + 1 \<le> exponent x" by simp
    have n: "- 1022 < exponent x" using lt exponent_ge [of y] by linarith
    then have "pow2 (exponent x) \<le> x" by (rule exponent_normal [OF _ x])
    moreover have "pow2 (- 1022) \<le> pow2 (exponent x)" using n by (intro pow2_mono) simp
    ultimately have "pow2 (- 1022) \<le> x" by linarith
    then have "pow2 (exponent x) \<le> round_magnitude x"
      by (rule round_magnitude_ge_binade')
    moreover have "pow2 (exponent y + 1) \<le> pow2 (exponent x)" by (rule pow2_mono [OF lt])
    moreover have "y < pow2 (exponent y + 1)"
      by (rule scaled_less' [OF assms(1)])
    ultimately show ?thesis by linarith
  qed
qed

lemma round_magnitude_exact:
  assumes "0 < m" "m < 2 ^ 53" "- 1074 \<le> e"
  shows "round_magnitude (of_int m * pow2 e) = of_int m * pow2 e"
proof -
  define x where "x = real_of_int m * pow2 e"
  have x: "0 < x" unfolding x_def using assms(1) by simp
  have "real_of_int m < 2 ^ 53" using assms(2) by (metis of_int_less_iff of_int_numeral of_int_power)
  then have "x < pow2 53 * pow2 e" unfolding x_def by (simp add: pow2_numeral)
  then have xl: "x < pow2 (e + 53)" by (simp add: pow2_add mult.commute)
  have d: "exponent x - 52 \<le> e"
  proof (cases "- 1022 < exponent x")
    case True
    then have "pow2 (exponent x) \<le> x" by (rule exponent_normal [OF _ x])
    then have "pow2 (exponent x) < pow2 (e + 53)" using xl by linarith
    then show ?thesis by (simp add: pow2_less_iff)
  next
    case False
    then have "exponent x = - 1022" using exponent_ge [of x] by linarith
    then show ?thesis using assms(3) by simp
  qed
  define k where "k = nat (e - (exponent x - 52))"
  have "e = (exponent x - 52) + int k" using d by (simp add: k_def)
  then have pe: "pow2 e = ulp x * 2 ^ k" unfolding ulp_def by (simp only: pow2_add pow2_nat)
  have "real_of_int m * pow2 e = real_of_int m * (ulp x * 2 ^ k)" by (simp only: pe)
  then have "x = real_of_int m * (ulp x * 2 ^ k)" by (metis x_def)
  then have "x / ulp x = real_of_int m * (ulp x * 2 ^ k) / ulp x" by simp
  then have "x / ulp x = of_int (m * 2 ^ k)" by simp
  then have "round_even (\<bar>x\<bar> / ulp x) = m * 2 ^ k" using x by (simp only: abs_of_pos round_even_of_int)
  then have "round_magnitude x = of_int (m * 2 ^ k) * ulp x" by (simp add: round_magnitude_def)
  also have "\<dots> = x" using \<open>x / ulp x = of_int (m * 2 ^ k)\<close> by (simp add: field_simps)
  finally show ?thesis unfolding x_def .
qed

lemma round_magnitude_minus [simp]: "round_magnitude (- x) = round_magnitude x"
  by (simp add: round_magnitude_def ulp_def exponent_def)

lemma round_magnitude_finite_le:
  assumes "0 < x" "round_magnitude x < pow2 1024"
  shows "round_magnitude x \<le> pow2 1024 - pow2 971"
proof -
  have e: "exponent x \<le> 1023"
  proof (rule ccontr)
    assume "\<not> exponent x \<le> 1023"
    then have g: "1024 \<le> exponent x" by simp
    then have "- 1022 < exponent x" by simp
    then have "pow2 (exponent x) \<le> x" by (rule exponent_normal [OF _ assms(1)])
    moreover have "pow2 (- 1022) \<le> pow2 (exponent x)" using g by (intro pow2_mono) simp
    ultimately have "pow2 (- 1022) \<le> x" by linarith
    then have "pow2 (exponent x) \<le> round_magnitude x"
      by (rule round_magnitude_ge_binade')
    moreover have "pow2 1024 \<le> pow2 (exponent x)" by (rule pow2_mono [OF g])
    ultimately show False using assms(2) by linarith
  qed
  have split: "pow2 1024 = 2 ^ 53 * pow2 971"
  proof -
    have "pow2 1024 = pow2 (53 + 971)" by simp
    then show ?thesis by (simp only: pow2_add pow2_numeral)
  qed
  show ?thesis
  proof (cases "exponent x = 1023")
    case True
    then have u: "ulp x = pow2 971" by (simp add: ulp_def)
    define q where "q = round_even (\<bar>x\<bar> / ulp x)"
    have m: "round_magnitude x = of_int q * pow2 971" by (simp add: round_magnitude_def q_def u)
    with assms(2) have "of_int q * pow2 971 < 2 ^ 53 * pow2 971" by (simp add: split)
    then have "real_of_int q < 2 ^ 53" by simp
    then have "q < 2 ^ 53" by (metis of_int_less_iff of_int_numeral of_int_power)
    then have "q \<le> 2 ^ 53 - 1" by simp
    then have "real_of_int q \<le> real_of_int (2 ^ 53 - 1)" by (simp only: of_int_le_iff)
    then have "real_of_int q \<le> 2 ^ 53 - 1" by simp
    then have "real_of_int q * pow2 971 \<le> (2 ^ 53 - 1) * pow2 971"
      by (rule mult_right_mono) (simp add: less_imp_le)
    then show ?thesis by (simp add: m split left_diff_distrib)
  next
    case False
    with e have "exponent x + 1 \<le> 1023" by simp
    then have "pow2 (exponent x + 1) \<le> pow2 1023" by (rule pow2_mono)
    moreover have "round_magnitude x \<le> pow2 (exponent x + 1)"
      by (rule round_magnitude_le_next' [OF assms(1)])
    moreover have "pow2 1023 \<le> pow2 1024 - pow2 971"
    proof -
      have "pow2 1023 = 2 ^ 52 * pow2 971"
      proof -
        have "pow2 1023 = pow2 (52 + 971)" by simp
        then show ?thesis by (simp only: pow2_add pow2_numeral)
      qed
      then show ?thesis using pow2_pos [of 971] by (simp add: split)
    qed
    ultimately show ?thesis by linarith
  qed
qed

lemma round_magnitude_no_overflow:
  assumes "0 < x" "x < pow2 1024 - pow2 970"
  shows "round_magnitude x < pow2 1024"
proof -
  have split: "pow2 1024 = 2 ^ 53 * pow2 971"
  proof -
    have "pow2 1024 = pow2 (53 + 971)" by simp
    then show ?thesis by (simp only: pow2_add pow2_numeral)
  qed
  have half: "pow2 970 = pow2 971 / 2"
  proof -
    have "pow2 971 = pow2 (1 + 970)" by simp
    then have "pow2 971 = 2 * pow2 970" by (simp only: pow2_add) (simp add: pow2_def)
    then show ?thesis by simp
  qed
  have "x < pow2 1024" using assms(2) pow2_pos [of 970] by linarith
  then have "pow2 (binade x) < pow2 1024" using binade_bounds(1) [OF assms(1)] by linarith
  then have "binade x < 1024" by (simp add: pow2_less_iff)
  then have e: "exponent x \<le> 1023" using assms(1) by (simp add: exponent_def)
  show ?thesis
  proof (cases "exponent x = 1023")
    case True
    then have u: "ulp x = pow2 971" by (simp add: ulp_def)
    define q where "q = round_even (\<bar>x\<bar> / ulp x)"
    have m: "round_magnitude x = of_int q * pow2 971" by (simp add: round_magnitude_def q_def u)
    have "x < (2 ^ 53 - 1 / 2) * pow2 971"
      using assms(2) unfolding split half by (simp only: left_diff_distrib)
    then have "x / pow2 971 < 2 ^ 53 - 1 / 2"
      by (simp only: pos_divide_less_eq [OF pow2_pos])
    moreover have "\<bar>real_of_int q - \<bar>x\<bar> / ulp x\<bar> \<le> 1 / 2"
      unfolding q_def by (rule round_even_err)
    then have "real_of_int q \<le> x / pow2 971 + 1 / 2"
      using assms(1) unfolding u by (simp only: abs_of_pos) 
    ultimately have "real_of_int q < 2 ^ 53" by linarith
    then have "real_of_int q * pow2 971 < 2 ^ 53 * pow2 971" by simp
    then show ?thesis by (simp add: m split)
  next
    case False
    with e have "exponent x + 1 \<le> 1023" by simp
    then have "pow2 (exponent x + 1) \<le> pow2 1023" by (rule pow2_mono)
    moreover have "round_magnitude x \<le> pow2 (exponent x + 1)"
      by (rule round_magnitude_le_next' [OF assms(1)])
    moreover have "pow2 1023 < pow2 1024" by (simp add: pow2_less_iff)
    ultimately show ?thesis by linarith
  qed
qed

lemma round_magnitude_int:
  assumes "z \<noteq> 0"
  shows "\<exists>w. round_magnitude (of_int z) = of_int w"
proof (cases "52 \<le> exponent (of_int z)")
  case True
  define k where "k = nat (exponent (real_of_int z) - 52)"
  have "exponent (real_of_int z) - 52 = int k" using True by (simp add: k_def)
  then have "ulp (of_int z) = 2 ^ k" unfolding ulp_def by (simp only: pow2_nat)
  then have "round_magnitude (of_int z) = of_int (round_even (\<bar>of_int z\<bar> / ulp (of_int z)) * 2 ^ k)"
    by (simp add: round_magnitude_def)
  then show ?thesis by blast
next
  case False
  define x where "x = \<bar>real_of_int z\<bar>"
  have x: "0 < x" using assms by (simp add: x_def)
  have ex: "exponent x = exponent (of_int z)" by (simp add: exponent_def x_def)
  have "binade x \<le> exponent x" by (simp add: exponent_def x_def)
  then have "binade x + 1 \<le> 52" using False ex by linarith
  then have "pow2 (binade x + 1) \<le> pow2 52" by (rule pow2_mono)
  then have "x < 2 ^ 52" using binade_bounds(2) [OF x] by (simp add: pow2_numeral)
  then have "real_of_int \<bar>z\<bar> < 2 ^ 52" by (simp add: x_def)
  then have "\<bar>z\<bar> < 2 ^ 52" by (metis of_int_less_iff of_int_numeral of_int_power)
  then have "\<bar>z\<bar> < 2 ^ 53" by simp
  moreover have "0 < \<bar>z\<bar>" using assms by simp
  ultimately have "round_magnitude (of_int \<bar>z\<bar> * pow2 0) = of_int \<bar>z\<bar> * pow2 0"
    by (intro round_magnitude_exact) simp_all
  then have "round_magnitude \<bar>real_of_int z\<bar> = of_int \<bar>z\<bar>" by simp
  moreover have "round_magnitude \<bar>real_of_int z\<bar> = round_magnitude (of_int z)"
    by (cases "0 \<le> z") (simp_all add: abs_if)
  ultimately show ?thesis by metis
qed

subsection \<open>The doubles\<close>

lemma round_double_pos:
  "0 < x \<Longrightarrow> round_double x = (if pow2 1024 \<le> round_magnitude x then PlusInfinity
                                     else Finite (round_magnitude x))"
  by (simp add: round_double_def Let_def)

lemma round_double_neg:
  "x < 0 \<Longrightarrow> round_double x = (if pow2 1024 \<le> round_magnitude x then MinusInfinity
                                     else Finite (- round_magnitude x))"
  by (simp add: round_double_def Let_def)

lemma round_double_0 [simp]: "round_double 0 = Finite 0"
  by (simp add: round_double_def)

lemma round_double_minus: "round_double (- x) = js_neg (round_double x)"
proof -
  consider "x = 0" | "0 < x" | "x < 0" by linarith
  then show ?thesis
  proof cases
    case 1 then show ?thesis by simp
  next
    case 2 then show ?thesis by (simp add: round_double_pos round_double_neg)
  next
    case 3 then show ?thesis by (simp add: round_double_pos round_double_neg)
  qed
qed

lemma round_double_overflow:
  assumes "pow2 1024 \<le> x"
  shows "round_double x = PlusInfinity"
proof -
  have x: "0 < x" using assms pow2_pos [of 1024] by linarith
  have "pow2 (- 1022) \<le> pow2 1024" by (intro pow2_mono) simp
  then have n: "pow2 (- 1022) \<le> x" using assms by linarith
  have "pow2 1024 < pow2 (exponent x + 1)" using scaled_less' [OF x] assms by linarith
  then have "1024 \<le> exponent x" by (simp add: pow2_less_iff)
  then have "pow2 1024 \<le> pow2 (exponent x)" by (rule pow2_mono)
  also have "\<dots> \<le> round_magnitude x" by (rule round_magnitude_ge_binade' [OF n])
  finally show ?thesis using x by (simp add: round_double_pos)
qed

lemma is_double_0 [simp]: "is_double 0"
  by (simp add: is_double_def)

lemma is_double_minus [simp]: "is_double (- x) = is_double x"
  by (cases "round_double x") (auto simp: is_double_def round_double_minus)

lemma is_double_pos:
  "0 < y \<Longrightarrow> is_double y \<longleftrightarrow> round_magnitude y = y \<and> y < pow2 1024"
  by (auto simp: is_double_def round_double_pos split: if_splits)

lemma round_double_finite:
  assumes "0 < x" "x < pow2 1024 - pow2 970"
  shows "round_double x = Finite (round_magnitude x)"
  using round_magnitude_no_overflow [OF assms] assms(1) by (simp add: round_double_pos)

lemma is_double_exact:
  assumes "\<bar>m\<bar> < 2 ^ 53" "- 1074 \<le> e" "e \<le> 971"
  shows "is_double (of_int m * pow2 e)"
proof -
  have pos: "is_double (of_int k * pow2 e)" if k: "0 < k" "k < 2 ^ 53" for k
  proof -
    have x: "0 < real_of_int k * pow2 e" using k(1) by simp
    have "real_of_int k < 2 ^ 53" using k(2) by (metis of_int_less_iff of_int_numeral of_int_power)
    then have "real_of_int k * pow2 e < pow2 53 * pow2 e" by (simp add: pow2_numeral)
    also have "\<dots> = pow2 (53 + e)" by (simp only: pow2_add)
    also have "\<dots> \<le> pow2 1024" using assms(3) by (intro pow2_mono) simp
    finally have "real_of_int k * pow2 e < pow2 1024" .
    moreover have "round_magnitude (of_int k * pow2 e) = of_int k * pow2 e"
      by (rule round_magnitude_exact [OF k assms(2)])
    ultimately show ?thesis using x by (simp only: is_double_pos) 
  qed
  consider "m = 0" | "0 < m" | "m < 0" by linarith
  then show ?thesis
  proof cases
    case 1 then show ?thesis by simp
  next
    case 2 then show ?thesis using assms(1) by (intro pos) simp_all
  next
    case 3
    then have "is_double (of_int (- m) * pow2 e)" using assms(1) by (intro pos) simp_all
    then have "is_double (- (of_int m * pow2 e))" by simp
    then show ?thesis by (simp only: is_double_minus)
  qed
qed

lemma is_double_int: "\<bar>z\<bar> < 2 ^ 53 \<Longrightarrow> is_double (of_int z)"
  using is_double_exact [of z 0] by simp


lemma round_between_doubles:
  assumes "is_double lo" "is_double hi" "lo \<le> x" "x \<le> hi"
  shows "\<exists>w. round_double x = Finite w \<and> lo \<le> w \<and> w \<le> hi"
proof -
  have pos: "\<exists>w. round_double x = Finite w \<and> l \<le> w \<and> w \<le> h"
    if a: "is_double l" "is_double h" "l \<le> x" "x \<le> h" "0 < x" for l h x
  proof -
    have h: "0 < h" using a by linarith
    with a(2) have hm: "round_magnitude h = h" "h < pow2 1024" by (simp_all add: is_double_pos)
    have up: "round_magnitude x \<le> h" by (rule round_up_to_double [OF a(5,4) hm(1)])
    then have "\<not> pow2 1024 \<le> round_magnitude x" using hm(2) by linarith
    then have r: "round_double x = Finite (round_magnitude x)" using a(5) by (simp add: round_double_pos)
    have "l \<le> round_magnitude x"
    proof (cases "0 < l")
      case True
      with a(1) have "round_magnitude l = l" by (simp add: is_double_pos)
      then show ?thesis by (rule round_down_to_double [OF True a(3)])
    next
      case False
      then show ?thesis using round_magnitude_nonneg [of x] by linarith
    qed
    with r up show ?thesis by simp
  qed
  consider "x = 0" | "0 < x" | "x < 0" by linarith
  then show ?thesis
  proof cases
    case 1 then show ?thesis using assms by simp
  next
    case 2 then show ?thesis by (rule pos [OF assms])
  next
    case 3
    have "\<exists>w. round_double (- x) = Finite w \<and> - hi \<le> w \<and> w \<le> - lo"
      using assms 3 by (intro pos) simp_all
    then obtain w where w: "round_double (- x) = Finite w" "- hi \<le> w" "w \<le> - lo" by blast
    have "round_double x = js_neg (round_double (- x))" using round_double_minus [of "- x"] by simp
    then have "round_double x = Finite (- w)" by (simp add: w(1))
    then show ?thesis using w(2,3) by simp
  qed
qed

lemma round_double_of_int:
  assumes "round_double (of_int z) = Finite w"
  shows "\<exists>r. w = of_int r"
proof -
  consider "z = 0" | "0 < z" | "z < 0" by linarith
  then show ?thesis
  proof cases
    case 1 then show ?thesis using assms by (simp add: exI [of _ 0])
  next
    case 2
    then obtain r where r: "round_magnitude (of_int z) = of_int r"
      using round_magnitude_int [of z] by auto
    from 2 assms have "w = round_magnitude (of_int z)"
      by (simp add: round_double_pos split: if_splits)
    then show ?thesis using r by blast
  next
    case 3
    then obtain r where r: "round_magnitude (of_int z) = of_int r"
      using round_magnitude_int [of z] by auto
    from 3 assms have "w = - round_magnitude (of_int z)"
      by (simp add: round_double_neg split: if_splits)
    then have "w = of_int (- r)" using r by simp
    then show ?thesis by blast
  qed
qed

lemma round_double_upper:
  assumes "0 \<le> x" "x = 0 \<or> 1 / 2 ^ 32 \<le> x" "x < pow2 1024 - pow2 970"
  shows "\<exists>y. round_double x = Finite y \<and> 0 \<le> y \<and> y \<le> x + x / 2 ^ 53
             \<and> y \<le> pow2 1024 - pow2 971"
proof (cases "x = 0")
  case True
  have "0 < pow2 1024 - pow2 971" by (simp add: pow2_less_iff)
  then show ?thesis using True by simp
next
  case False
  with assms have x: "0 < x" "1 / 2 ^ 32 \<le> x" by auto
  have r: "round_double x = Finite (round_magnitude x)" by (rule round_double_finite [OF x(1) assms(3)])
  have "pow2 (- 1022) \<le> pow2 (- 32)" by (intro pow2_mono) simp
  also have "pow2 (- 32) = 1 / 2 ^ 32" by (simp add: pow2_def)
  finally have "pow2 (- 1022) \<le> x" using x(2) by linarith
  then have u: "round_magnitude x \<le> x + x / 2 ^ 53" by (rule round_magnitude_upper)
  have "round_magnitude x < pow2 1024" by (rule round_magnitude_no_overflow [OF x(1) assms(3)])
  then have "round_magnitude x \<le> pow2 1024 - pow2 971" by (rule round_magnitude_finite_le [OF x(1)])
  with r u round_magnitude_nonneg [of x] show ?thesis by simp
qed

subsection \<open>The scaled draw\<close>

lemma pow2_970_gt: "1 < pow2 970"
proof -
  have "pow2 0 < pow2 970" by (simp only: pow2_less_iff)
  then show ?thesis by simp
qed

lemma pow2_971_split: "pow2 971 = 2 * pow2 970"
proof -
  have "pow2 971 = pow2 (1 + 970)" by simp
  then show ?thesis by (simp only: pow2_add) (simp add: pow2_def)
qed

lemma is_double_1: "is_double 1"
  using is_double_int [of 1] by simp

lemma scale_draw_range:
  assumes u: "0 \<le> u" "u \<le> 1 - 1 / 2 ^ 32" "u = 0 \<or> 1 / 2 ^ 32 \<le> u"
    and d: "is_double (of_int lo)" "is_double (of_int hi)"
    and le: "lo \<le> hi"
    and fin: "real_of_int (hi - lo) < pow2 1024 - pow2 970"
  shows "\<exists>r. scale_draw u (Finite (of_int lo)) (Finite (of_int hi)) = Finite (of_int r)
             \<and> lo \<le> r \<and> r \<le> hi"
proof -
  define D where "D = real_of_int (hi - lo)"
  have D0: "0 \<le> D" using le by (simp add: D_def)
  have Dz: "D = 0 \<or> 1 / 2 ^ 32 \<le> D"
  proof (cases "hi = lo")
    case True then show ?thesis by (simp add: D_def)
  next
    case False
    with le have "1 \<le> hi - lo" by simp
    then have "1 \<le> D" unfolding D_def by (simp only: of_int_1_le_iff)
    then show ?thesis by simp
  qed
  have s1: "js_sub (Finite (of_int hi)) (Finite (of_int lo)) = round_double D"
    by (simp add: js_sub_def D_def)
  from round_double_upper [OF D0 Dz] fin
  obtain y1 where y1: "round_double D = Finite y1" "0 \<le> y1" "y1 \<le> D + D / 2 ^ 53"
      "y1 \<le> pow2 1024 - pow2 971"
    unfolding D_def by blast
  have x2: "0 \<le> y1 + 1" "y1 + 1 = 0 \<or> 1 / 2 ^ 32 \<le> y1 + 1" "y1 + 1 < pow2 1024 - pow2 970"
    using y1(2,4) pow2_970_gt by (simp_all add: pow2_971_split)
  from round_double_upper [OF x2]
  obtain y2 where y2: "round_double (y1 + 1) = Finite y2" "0 \<le> y2"
      "y2 \<le> (y1 + 1) + (y1 + 1) / 2 ^ 53" "y2 \<le> pow2 1024 - pow2 971"
    by blast
  have y2_ge: "1 \<le> y2"
  proof -
      have "round_magnitude (y1 + 1) = y2"
        using y2(1) x2(1) y1(2) by (simp add: round_double_pos split: if_splits)
      moreover have "1 \<le> round_magnitude (y1 + 1)"
      proof (rule round_down_to_double)
        show "(0::real) < 1" by simp
        show "1 \<le> y1 + 1" using y1(2) by simp
        show "round_magnitude 1 = 1" using is_double_1 by (simp add: is_double_pos)
      qed
      ultimately show ?thesis by simp
  qed
  have s2: "js_add (js_sub (Finite (of_int hi)) (Finite (of_int lo))) (Finite 1) = Finite y2"
    by (simp add: s1 y1(1) y2(1))
  define t where "t = u * y2"
  have t0: "0 \<le> t" unfolding t_def using u(1) y2(2) by simp
  have tz: "t = 0 \<or> 1 / 2 ^ 32 \<le> t"
  proof (cases "u = 0")
    case True then show ?thesis by (simp add: t_def)
  next
    case False
    with u(3) have "1 / 2 ^ 32 \<le> u" by simp
    then have "1 / 2 ^ 32 * 1 \<le> u * y2" using y2_ge by (intro mult_mono) simp_all
    then show ?thesis by (simp add: t_def)
  qed
  have tle: "t \<le> y2 - y2 / 2 ^ 32"
  proof -
    have "u * y2 \<le> (1 - 1 / 2 ^ 32) * y2" using u(2) y2(2) by (rule mult_right_mono)
    then show ?thesis by (simp add: t_def left_diff_distrib)
  qed
  have "0 \<le> y2 / 2 ^ 32" using y2(2) by simp
  then have tfin: "t < pow2 1024 - pow2 970"
    using tle y2(4) pow2_pos [of 970] unfolding pow2_971_split by linarith
  from round_double_upper [OF t0 tz tfin]
  obtain y3 where y3: "round_double t = Finite y3" "0 \<le> y3" "y3 \<le> t + t / 2 ^ 53"
    by blast
  have s3: "round_double (u * y2) = Finite y3" by (simp add: t_def [symmetric] y3(1))
  define f where "f = \<lfloor>y3\<rfloor>"
  have f0: "0 \<le> f" using y3(2) by (simp add: f_def)
  define a :: real where "a = 9007199254740993 / 9007199254740992"
  define c :: real where "c = 4294967295 / 4294967296"
  have a0: "0 \<le> a" and c0: "0 \<le> c" by (simp_all add: a_def c_def)
  have A: "y3 \<le> a * t" using y3(3) by (simp add: a_def)
  have B: "t \<le> c * y2" using tle by (simp add: c_def)
  have C: "y2 \<le> a * (y1 + 1)" using y2(3) by (simp add: a_def add_divide_distrib)
  have E: "y1 \<le> a * D" using y1(3) by (simp add: a_def)
  have "a * t \<le> a * (c * y2)" by (intro mult_left_mono B a0)
  also have "\<dots> \<le> a * (c * (a * (y1 + 1)))" by (intro mult_left_mono C a0 c0)
  also have "\<dots> \<le> a * (c * (a * (a * D + 1)))"
    using E by (intro mult_left_mono a0 c0) simp
  also have "\<dots> = (a * c * a * a) * D + a * c * a" by (simp add: algebra_simps)
  finally have F: "y3 \<le> (a * c * a * a) * D + a * c * a" using A by linarith
  have "a * c * a * a \<le> 1" by (simp add: a_def c_def)
  then have "(a * c * a * a) * D \<le> 1 * D" using D0 by (rule mult_right_mono)
  moreover have "a * c * a < 1" by (simp add: a_def c_def)
  ultimately have "y3 < D + 1" using F by linarith
  moreover have "real_of_int f \<le> y3" unfolding f_def by (rule of_int_floor_le)
  ultimately have "real_of_int f < D + 1" by linarith
  then have "real_of_int f < real_of_int (hi - lo + 1)" by (simp add: D_def)
  then have "f < hi - lo + 1" by (simp only: of_int_less_iff)
  then have fle: "f + lo \<le> hi" by simp
  have s4: "scale_draw u (Finite (of_int lo)) (Finite (of_int hi)) = round_double (of_int (f + lo))"
    by (simp add: scale_draw_def s2 s3 f_def)
  have "\<exists>w. round_double (of_int (f + lo)) = Finite w \<and> of_int lo \<le> w \<and> w \<le> of_int hi"
    using f0 fle by (intro round_between_doubles d) simp_all
  then obtain w where w: "round_double (of_int (f + lo)) = Finite w" "of_int lo \<le> w" "w \<le> of_int hi"
    by blast
  from round_double_of_int [OF w(1)] obtain r where r: "w = of_int r" by blast
  with w have "lo \<le> r" "r \<le> hi" by simp_all
  with s4 w(1) r show ?thesis by simp
qed

lemma is_double_integral_or_small:
  assumes "is_double a"
  shows "(\<exists>z. a = of_int z) \<or> \<bar>a\<bar> < 2 ^ 52"
proof -
  have pos: "(\<exists>z. x = of_int z) \<or> x < 2 ^ 52" if x: "0 < x" "is_double x" for x
  proof (cases "52 \<le> exponent x")
    case True
    define k where "k = nat (exponent x - 52)"
    have "exponent x - 52 = int k" using True by (simp add: k_def)
    then have "ulp x = 2 ^ k" unfolding ulp_def by (simp only: pow2_nat)
    moreover from x have "round_magnitude x = x" by (simp add: is_double_pos)
    ultimately have "x = of_int (round_even (\<bar>x\<bar> / ulp x) * 2 ^ k)"
      by (simp add: round_magnitude_def)
    then show ?thesis by blast
  next
    case False
    then have "exponent x + 1 \<le> 52" by simp
    then have "pow2 (exponent x + 1) \<le> pow2 52" by (rule pow2_mono)
    then have "x < 2 ^ 52" using scaled_less' [OF x(1)] by (simp add: pow2_numeral)
    then show ?thesis by simp
  qed
  consider "a = 0" | "0 < a" | "a < 0" by linarith
  then show ?thesis
  proof cases
    case 1 then show ?thesis by simp
  next
    case 2 then show ?thesis using pos [OF 2 assms] by auto
  next
    case 3
    then have "0 < - a" "is_double (- a)" using assms by simp_all
    from pos [OF this] show ?thesis
    proof
      assume "\<exists>z. - a = of_int z"
      then obtain z where "- a = real_of_int z" by blast
      then have "a = of_int (- z)" by simp
      then show ?thesis by blast
    next
      assume "- a < 2 ^ 52"
      then show ?thesis using 3 by simp
    qed
  qed
qed

lemma is_double_floor:
  assumes "is_double a"
  shows "is_double (of_int \<lfloor>a\<rfloor>)"
  using is_double_integral_or_small [OF assms]
proof
  assume "\<exists>z. a = of_int z"
  then show ?thesis using assms by auto
next
  assume s: "\<bar>a\<bar> < 2 ^ 52"
  from s have "a < 4503599627370496" "- 4503599627370496 < a" by (simp_all add: abs_less_iff)
  then have "\<lfloor>a\<rfloor> < 4503599627370496" "- 4503599627370497 < \<lfloor>a\<rfloor>"
    by (simp_all add: floor_less_iff less_floor_iff)
  then have "\<bar>\<lfloor>a\<rfloor>\<bar> < 9007199254740992" by linarith
  then have "\<bar>\<lfloor>a\<rfloor>\<bar> < 2 ^ 53" by simp
  then show ?thesis by (rule is_double_int)
qed

lemma is_double_ceiling:
  assumes "is_double a"
  shows "is_double (of_int \<lceil>a\<rceil>)"
proof -
  have "is_double (of_int \<lfloor>- a\<rfloor>)" using assms by (intro is_double_floor) simp
  then have "is_double (- of_int \<lceil>a\<rceil>)" by (simp add: ceiling_def)
  then show ?thesis by (simp only: is_double_minus)
qed

lemma round_double_exact: "is_double x \<Longrightarrow> round_double x = Finite x"
  by (simp add: is_double_def)

lemma scale_draw_exact:
  fixes k :: nat and lo hi :: int
  assumes k: "k < 2 ^ 32"
    and le: "lo \<le> hi"
    and small: "- (2 ^ 52) \<le> lo" "hi \<le> 2 ^ 52"
    and n: "hi - lo + 1 \<le> 2 ^ 21"
  shows "scale_draw (real k / 2 ^ 32) (Finite (of_int lo)) (Finite (of_int hi))
         = Finite (of_int (lo + (int k * (hi - lo + 1)) div 2 ^ 32))"
proof -
  define m where "m = int k * (hi - lo + 1)"
  have m0: "0 \<le> m" using le by (simp add: m_def)
  have "int k * (hi - lo + 1) \<le> int k * 2 ^ 21" using n by (intro mult_left_mono) simp_all
  also have "\<dots> < 2 ^ 32 * 2 ^ 21" using k by simp
  finally have m53: "m < 2 ^ 53" by (simp add: m_def)
  have d1: "round_double (real_of_int hi - real_of_int lo) = Finite (of_int (hi - lo))"
  proof -
    have "\<bar>hi - lo\<bar> < 2 ^ 53" using le n by simp
    then have "is_double (of_int (hi - lo))" by (rule is_double_int)
    then show ?thesis by (simp add: is_double_def)
  qed
  have d2: "round_double (real_of_int (hi - lo) + 1) = Finite (of_int (hi - lo + 1))"
  proof -
    have "\<bar>hi - lo + 1\<bar> < 2 ^ 53" using le n by simp
    then have "is_double (of_int (hi - lo + 1))" by (rule is_double_int)
    then show ?thesis by (simp add: is_double_def)
  qed
  have p: "real k / 2 ^ 32 * real_of_int (hi - lo + 1) = of_int m * pow2 (- 32)"
    by (simp add: m_def pow2_def)
  have d3: "round_double (real k / 2 ^ 32 * real_of_int (hi - lo + 1)) = Finite (of_int m * pow2 (- 32))"
  proof -
    have "is_double (of_int m * pow2 (- 32))" using m0 m53 by (intro is_double_exact) simp_all
    then show ?thesis unfolding p by (simp add: is_double_def)
  qed
  have fl: "\<lfloor>real_of_int m * pow2 (- 32)\<rfloor> = m div 2 ^ 32"
  proof -
    have "real_of_int m * pow2 (- 32) = real_of_int m / real_of_int (2 ^ 32)" by (simp add: pow2_def)
    then show ?thesis by (simp only: floor_divide_of_int_eq)
  qed
  have dle: "m div 2 ^ 32 \<le> hi - lo"
  proof -
    have "int k \<le> 2 ^ 32 - 1" using k by simp
    then have "int k * (hi - lo + 1) \<le> (2 ^ 32 - 1) * (hi - lo + 1)"
      using le by (intro mult_right_mono) simp_all
    also have "\<dots> < 2 ^ 32 * (hi - lo + 1)" using le by simp
    finally have "m < (hi - lo + 1) * 2 ^ 32" by (simp add: m_def mult.commute)
    then have "m div 2 ^ 32 < hi - lo + 1" by (simp add: div_less_iff_less_mult)
    then show ?thesis by simp
  qed
  have dge: "0 \<le> m div 2 ^ 32" using m0 by (simp add: pos_imp_zdiv_nonneg_iff)
  have d4: "round_double (real_of_int (m div 2 ^ 32) + real_of_int lo) = Finite (of_int (lo + m div 2 ^ 32))"
  proof -
    have "\<bar>lo + m div 2 ^ 32\<bar> < 2 ^ 53" using dle dge small by simp
    then have "is_double (of_int (lo + m div 2 ^ 32))" by (rule is_double_int)
    then have "round_double (of_int (lo + m div 2 ^ 32)) = Finite (of_int (lo + m div 2 ^ 32))"
      by (simp add: is_double_def)
    then show ?thesis by (simp add: add.commute)
  qed
  have "js_sub (Finite (of_int hi)) (Finite (of_int lo)) = Finite (of_int (hi - lo))"
    using d1 by (simp add: js_sub_def)
  then have "js_add (js_sub (Finite (of_int hi)) (Finite (of_int lo))) (Finite 1) = Finite (of_int (hi - lo + 1))"
    using d2 by simp
  then show ?thesis unfolding scale_draw_def m_def [symmetric]
    using d3 d4 fl by simp
qed

section \<open>Properties of the generator\<close>

lemma floor_scaled_range:
  fixes u :: real and n :: int
  assumes "0 \<le> u" "u < 1" "0 < n"
  shows "0 \<le> \<lfloor>u * real_of_int n\<rfloor> \<and> \<lfloor>u * real_of_int n\<rfloor> < n"
proof
  from assms show "0 \<le> \<lfloor>u * real_of_int n\<rfloor>" by simp
  from assms have "u * real_of_int n < 1 * real_of_int n"
    by (intro mult_strict_right_mono) simp_all
  then show "\<lfloor>u * real_of_int n\<rfloor> < n"
    by (simp add: floor_less_iff)
qed

lemma rng_call_range: "0 \<le> fst (rng_call g) \<and> fst (rng_call g) < 1"
proof -
  have frac: "0 \<le> real n / 4294967296 \<and> real n / 4294967296 < 1" if "n < 4294967296" for n :: nat
    using that by simp
  have "unat w < 4294967296" for w :: u32
    using unsigned_less [of w, where ?'a = nat] by simp
  then show ?thesis
    unfolding rng_call_def Let_def fst_conv by (rule frac)
qed

lemma choice_index_range:
  assumes "0 \<le> u" "u < 1" "xs \<noteq> []"
  shows "nat \<lfloor>u * real (length xs)\<rfloor> < length xs"
proof -
  from assms have "0 < int (length xs)" by simp
  from floor_scaled_range [OF assms(1,2) this] show ?thesis
    by (simp add: nat_less_iff)
qed

lemma rng_call_numerator:
  "fst (rng_call g) = real (rng_numerator g) / 4294967296 \<and> rng_numerator g < 4294967296"
proof -
  have "\<exists>w :: u32. fst (rng_call g) = real (unat w) / 4294967296"
    unfolding rng_call_def Let_def fst_conv by (rule exI) (rule refl)
  then obtain w :: u32 where w: "fst (rng_call g) = real (unat w) / 4294967296" ..
  define n where "n = unat w"
  have "n < 4294967296"
    unfolding n_def using unsigned_less [of w, where ?'a = nat] by simp
  moreover have "nat \<lfloor>real n / 4294967296 * 4294967296\<rfloor> = n"
    by simp
  ultimately show ?thesis
    unfolding rng_numerator_def w n_def [symmetric] by simp
qed

text \<open>A draw is a multiple of \<open>2^-32\<close> below 1.\<close>

lemma rng_call_draw:
  "0 \<le> fst (rng_call g) \<and> fst (rng_call g) \<le> 1 - 1 / 2 ^ 32
   \<and> (fst (rng_call g) = 0 \<or> 1 / 2 ^ 32 \<le> fst (rng_call g))"
proof -
  define k where "k = rng_numerator g"
  from rng_call_numerator [of g] have u: "fst (rng_call g) = real k / 4294967296" "k < 4294967296"
    by (simp_all add: k_def)
  from u(2) have "k \<le> 4294967295" by simp
  then have "real k \<le> 4294967295" by (metis of_nat_le_iff of_nat_numeral)
  then have "real k / 4294967296 \<le> 1 - 1 / 2 ^ 32" by simp
  moreover have "real k / 4294967296 = 0 \<or> 1 / 2 ^ 32 \<le> real k / 4294967296"
  proof (cases "k = 0")
    case True then show ?thesis by simp
  next
    case False
    then have "1 \<le> k" by simp
    then have "1 \<le> real k" by simp
    then show ?thesis by simp
  qed
  ultimately show ?thesis unfolding u(1) by simp
qed

subsection \<open>Integer draws\<close>

text \<open>The equations that evaluate the operations on numbers.\<close>

lemmas number_ev = round_double_def round_magnitude_def ulp_def exponent_def binade_def
  pow2_def round_even_def Let_def bit_length.simps js_sub_def

lemma randomInt_resolved:
  "randomInt g (Finite a) (Finite b) =
     (if \<lfloor>b\<rfloor> < \<lceil>a\<rceil> then (Finite (of_int \<lceil>a\<rceil>), g)
      else (scale_draw (fst (rng_call g)) (Finite (of_int \<lceil>a\<rceil>)) (Finite (of_int \<lfloor>b\<rfloor>)),
            snd (rng_call g)))"
  by (simp add: randomInt_def scale_draw_def Let_def split: prod.splits)

lemma randomInt_degenerate:
  "\<lfloor>b\<rfloor> < \<lceil>a\<rceil> \<Longrightarrow> randomInt g (Finite a) (Finite b) = (Finite (of_int \<lceil>a\<rceil>), g)"
  by (simp add: randomInt_resolved)

text \<open>A bound that is NaN gives NaN.\<close>

lemma randomInt_NaN: "fst (randomInt g a NaN) = NaN" "fst (randomInt g NaN b) = NaN"
proof -
  show "fst (randomInt g a NaN) = NaN"
    by (cases a; cases "rng_call g") (simp_all add: randomInt_def js_sub_def Let_def)
  show "fst (randomInt g NaN b) = NaN"
    by (cases b; cases "rng_call g") (simp_all add: randomInt_def js_sub_def Let_def)
qed

text \<open>
  The range of \<open>randomInt\<close> in double arithmetic, for bounds that are doubles and
  whose span does not overflow.
\<close>

lemma randomInt_bounds:
  assumes "is_double a" "is_double b" "\<lceil>a\<rceil> \<le> \<lfloor>b\<rfloor>"
    and "real_of_int (\<lfloor>b\<rfloor> - \<lceil>a\<rceil>) < pow2 1024 - pow2 970"
  shows "\<exists>r. randomInt g (Finite a) (Finite b) = (Finite (of_int r), snd (rng_call g))
             \<and> \<lceil>a\<rceil> \<le> r \<and> r \<le> \<lfloor>b\<rfloor>"
proof -
  from rng_call_draw [of g] have u: "0 \<le> fst (rng_call g)" "fst (rng_call g) \<le> 1 - 1 / 2 ^ 32"
      "fst (rng_call g) = 0 \<or> 1 / 2 ^ 32 \<le> fst (rng_call g)"
    by simp_all
  have "\<exists>r. scale_draw (fst (rng_call g)) (Finite (of_int \<lceil>a\<rceil>)) (Finite (of_int \<lfloor>b\<rfloor>))
               = Finite (of_int r) \<and> \<lceil>a\<rceil> \<le> r \<and> r \<le> \<lfloor>b\<rfloor>"
    by (rule scale_draw_range [OF u is_double_ceiling [OF assms(1)] is_double_floor [OF assms(2)]
          assms(3,4)])
  then show ?thesis using assms(3) by (simp add: randomInt_resolved)
qed

text \<open>
  Between integers below \<open>2^52\<close> in magnitude, for a range of at most \<open>2^21\<close>
  values, no operation of \<open>randomInt\<close> rounds: the result is the exact one.
\<close>

lemma randomInt_exact:
  assumes "\<lceil>a\<rceil> \<le> \<lfloor>b\<rfloor>" "- (2 ^ 52) \<le> \<lceil>a\<rceil>" "\<lfloor>b\<rfloor> \<le> 2 ^ 52" "\<lfloor>b\<rfloor> - \<lceil>a\<rceil> + 1 \<le> 2 ^ 21"
  shows "randomInt g (Finite a) (Finite b)
         = (Finite (of_int (\<lfloor>fst (rng_call g) * real_of_int (\<lfloor>b\<rfloor> - \<lceil>a\<rceil> + 1)\<rfloor> + \<lceil>a\<rceil>)),
            snd (rng_call g))"
proof -
  define k where "k = rng_numerator g"
  from rng_call_numerator [of g] have u: "fst (rng_call g) = real k / 2 ^ 32" "k < 2 ^ 32"
    by (simp_all add: k_def)
  have "real k / 2 ^ 32 * real_of_int (\<lfloor>b\<rfloor> - \<lceil>a\<rceil> + 1)
      = real_of_int (int k * (\<lfloor>b\<rfloor> - \<lceil>a\<rceil> + 1)) / real_of_int (2 ^ 32)"
    by simp
  then have "\<lfloor>real k / 2 ^ 32 * real_of_int (\<lfloor>b\<rfloor> - \<lceil>a\<rceil> + 1)\<rfloor>
      = (int k * (\<lfloor>b\<rfloor> - \<lceil>a\<rceil> + 1)) div 2 ^ 32"
    by (simp only: floor_divide_of_int_eq)
  with scale_draw_exact [OF u(2) assms] assms(1) show ?thesis
    by (simp add: randomInt_resolved u(1) add.commute)
qed

lemma randomInt_exact_range:
  assumes "\<lceil>a\<rceil> \<le> \<lfloor>b\<rfloor>" "- (2 ^ 52) \<le> \<lceil>a\<rceil>" "\<lfloor>b\<rfloor> \<le> 2 ^ 52" "\<lfloor>b\<rfloor> - \<lceil>a\<rceil> + 1 \<le> 2 ^ 21"
  shows "\<exists>r. randomInt g (Finite a) (Finite b) = (Finite (of_int r), snd (rng_call g))
             \<and> \<lceil>a\<rceil> \<le> r \<and> r \<le> \<lfloor>b\<rfloor>"
proof -
  from rng_call_range [of g] have u: "0 \<le> fst (rng_call g)" "fst (rng_call g) < 1" by simp_all
  from assms(1) have "0 < \<lfloor>b\<rfloor> - \<lceil>a\<rceil> + 1" by simp
  from floor_scaled_range [OF u this] show ?thesis
    unfolding randomInt_exact [OF assms] by (intro exI conjI) (rule refl, simp_all)
qed

text \<open>
  Beyond \<open>2^21\<close> values the product with the draw is rounded, and the result can be
  the neighbour of the exact one: with the seed 1951 the first draw is
  \<open>4294905946 / 2^32\<close>, and between 0 and \<open>2^40\<close> \<open>randomInt\<close> returns
  1099495922177 where the exact product has the floor 1099495922176.
\<close>

lemma randomInt_rounds:
  "randomInt (mulberry32 1951) (Finite 0) (Finite (2 ^ 40)) = (Finite 1099495922177, 1831567764)
   \<and> \<lfloor>fst (rng_call (mulberry32 1951)) * (2 ^ 40 + 1)\<rfloor> = (1099495922176 :: int)"
  by (simp add: randomInt_def rng_call_def imul_def mulberry32_def ToUint32_def trunc_def
      number_ev)



lemma draws_numeral:
  "draws (numeral k) g = (case rng_call g of (u, g') \<Rightarrow> u # draws (pred_numeral k) g')"
  by (simp add: numeral_eq_Suc)

lemma mulberry32_of_int: "mulberry32 (of_int k) = word_of_int k"
  by (simp add: mulberry32_def ToUint32_def trunc_def)

lemma word_of_int_mod32: "(word_of_int (k mod 2 ^ 32) :: u32) = word_of_int k"
  by (simp add: word_of_int_eq_iff take_bit_eq_mod)

subsection \<open>Interleaved calls\<close>

lemma interleaved_outputs:
  "interleaved step sched s1 s2
     = (outputs step (length (filter id sched)) s1, outputs step (length (filter Not sched)) s2)"
  by (induction sched arbitrary: s1 s2) (auto split: prod.splits)

lemma length_outputs [simp]: "length (outputs step n s) = n"
  by (induction n arbitrary: s) (auto split: prod.splits)

lemma take_outputs: "take m (outputs step n s) = outputs step (min m n) s"
proof (induction n arbitrary: m s)
  case 0
  show ?case by simp
next
  case (Suc n)
  show ?case
  proof (cases m)
    case 0
    then show ?thesis by simp
  next
    case (Suc m')
    with Suc.IH show ?thesis by (auto split: prod.splits)
  qed
qed

lemma draws_outputs: "draws n g = outputs rng_call n g"
  by (induction n arbitrary: g) (auto split: prod.splits)

section \<open>Scaling the outputs of the generator to a range\<close>
















section \<open>Properties of strings and of the query generator\<close>

lemma has_nonspace_iff: "has_nonspace s \<longleftrightarrow> (\<exists>c \<in> set s. \<not> is_space c)"
  by (simp add: has_nonspace_def list_ex_iff)

lemma has_nonspace_append [simp]: "has_nonspace (xs @ ys) \<longleftrightarrow> has_nonspace xs \<or> has_nonspace ys"
  by (auto simp: has_nonspace_iff)

lemma has_nonspace_dropWhile [simp]: "has_nonspace (dropWhile is_space s) \<longleftrightarrow> has_nonspace s"
  by (induction s) (auto simp: has_nonspace_iff)

lemma has_nonspace_rev [simp]: "has_nonspace (rev s) \<longleftrightarrow> has_nonspace s"
  by (simp add: has_nonspace_iff)

lemma has_nonspace_trim [simp]: "has_nonspace (trim s) \<longleftrightarrow> has_nonspace s"
  by (simp add: trim_def)

lemma has_nonspace_collapse [simp]: "has_nonspace (collapse_spaces s) \<longleftrightarrow> has_nonspace s"
proof (induction s rule: collapse_spaces.induct)
  case 1
  show ?case by simp
next
  case (2 c cs)
  have sp: "is_space 0x20" by (simp add: is_space_def)
  show ?case
  proof (cases "is_space c")
    case True
    with 2 sp show ?thesis
      using has_nonspace_dropWhile [of cs] by (simp add: has_nonspace_iff)
  next
    case False
    with 2 show ?thesis by (simp add: has_nonspace_iff)
  qed
qed

lemma has_nonspace_nonempty: "has_nonspace s \<Longrightarrow> s \<noteq> []"
  by (auto simp: has_nonspace_iff)

text \<open>A doubled space is a factor of two adjacent white-space code units.\<close>

lemma has_double_space_iff:
  "has_double_space s \<longleftrightarrow> (\<exists>xs c d ys. s = xs @ c # d # ys \<and> is_space c \<and> is_space d)"
proof (induction s rule: has_double_space.induct)
  case (1 c d cs)
  show ?case
  proof
    assume "has_double_space (c # d # cs)"
    then consider "is_space c \<and> is_space d" | "has_double_space (d # cs)" by auto
    then show "\<exists>xs c' d' ys. c # d # cs = xs @ c' # d' # ys \<and> is_space c' \<and> is_space d'"
    proof cases
      case 1
      then have "c # d # cs = [] @ c # d # cs \<and> is_space c \<and> is_space d" by simp
      then show ?thesis by blast
    next
      case 2
      with 1 obtain xs c' d' ys where "d # cs = xs @ c' # d' # ys" "is_space c'" "is_space d'"
        by blast
      then have "c # d # cs = (c # xs) @ c' # d' # ys \<and> is_space c' \<and> is_space d'" by simp
      then show ?thesis by blast
    qed
  next
    assume "\<exists>xs c' d' ys. c # d # cs = xs @ c' # d' # ys \<and> is_space c' \<and> is_space d'"
    then obtain xs c' d' ys where eq: "c # d # cs = xs @ c' # d' # ys" and sp: "is_space c'" "is_space d'"
      by blast
    show "has_double_space (c # d # cs)"
    proof (cases xs)
      case Nil
      with eq sp show ?thesis by simp
    next
      case (Cons x xs')
      with eq have "d # cs = xs' @ c' # d' # ys" by simp
      with sp 1 have "has_double_space (d # cs)" by blast
      then show ?thesis by simp
    qed
  qed
qed simp_all

lemma has_double_space_rev [simp]: "has_double_space (rev s) \<longleftrightarrow> has_double_space s"
proof -
  have "has_double_space (rev t)" if "has_double_space t" for t
  proof -
    from that obtain xs c d ys where "t = xs @ c # d # ys" "is_space c" "is_space d"
      unfolding has_double_space_iff by blast
    then have "rev t = rev ys @ d # c # rev xs \<and> is_space d \<and> is_space c" by simp
    then show ?thesis unfolding has_double_space_iff by blast
  qed
  from this [of s] this [of "rev s"] show ?thesis by auto
qed

lemma has_double_space_suffix: "has_double_space ys \<Longrightarrow> has_double_space (xs @ ys)"
proof -
  assume "has_double_space ys"
  then obtain us c d vs where "ys = us @ c # d # vs" "is_space c" "is_space d"
    unfolding has_double_space_iff by blast
  then have "xs @ ys = (xs @ us) @ c # d # vs \<and> is_space c \<and> is_space d" by simp
  then show ?thesis unfolding has_double_space_iff by blast
qed

lemma has_double_space_dropWhile: "has_double_space (dropWhile P s) \<Longrightarrow> has_double_space s"
  using has_double_space_suffix [of "dropWhile P s" "takeWhile P s"] by simp

lemma has_double_space_trim: "has_double_space (trim s) \<Longrightarrow> has_double_space s"
  unfolding trim_def has_double_space_rev
  by (metis has_double_space_dropWhile has_double_space_rev)

lemma has_double_space_Cons:
  "has_double_space (c # r) \<longleftrightarrow> (r \<noteq> [] \<and> is_space c \<and> is_space (hd r)) \<or> has_double_space r"
  by (cases r) auto

lemma hd_collapse_spaces:
  "collapse_spaces s \<noteq> [] \<Longrightarrow> is_space (hd (collapse_spaces s)) = is_space (hd s)"
  by (cases s) (auto simp: is_space_def)

lemma collapse_spaces_no_double: "\<not> has_double_space (collapse_spaces s)"
proof (induction s rule: collapse_spaces.induct)
  case 1
  show ?case by simp
next
  case (2 c cs)
  show ?case
  proof (cases "is_space c")
    case True
    let ?r = "collapse_spaces (dropWhile is_space cs)"
    have "\<not> is_space (hd ?r)" if "?r \<noteq> []"
    proof -
      from that have "dropWhile is_space cs \<noteq> []"
        by (cases "dropWhile is_space cs") simp_all
      then have "\<not> is_space (hd (dropWhile is_space cs))" by (rule hd_dropWhile)
      with that show ?thesis by (simp add: hd_collapse_spaces)
    qed
    with True 2 show ?thesis by (auto simp: has_double_space_Cons)
  next
    case False
    with 2 show ?thesis by (simp add: has_double_space_Cons)
  qed
qed

lemma last_dropWhile: "dropWhile P xs \<noteq> [] \<Longrightarrow> last (dropWhile P xs) = last xs"
  using last_appendR [of "dropWhile P xs" "takeWhile P xs"] by simp

lemma trim_no_outer_space: "no_outer_space (trim s)"
proof (cases "trim s = []")
  case True
  then show ?thesis by (simp add: no_outer_space_def)
next
  case False
  let ?t = "dropWhile is_space s"
  let ?r = "dropWhile is_space (rev ?t)"
  from False have r: "?r \<noteq> []" by (simp add: trim_def)
  then have t: "?t \<noteq> []" by (cases "dropWhile is_space s") simp_all
  from r have "\<not> is_space (hd ?r)" by (rule hd_dropWhile)
  with r have last_ok: "\<not> is_space (last (trim s))" by (simp add: trim_def last_rev)
  from r have "last ?r = last (rev ?t)" by (rule last_dropWhile)
  with t have "last ?r = hd ?t" by (simp add: last_rev)
  moreover from t have "\<not> is_space (hd ?t)" by (rule hd_dropWhile)
  ultimately have "\<not> is_space (hd (trim s))" using r by (simp add: trim_def hd_rev)
  with last_ok False show ?thesis
    by (cases "trim s") (simp_all add: no_outer_space_def)
qed

text \<open>The final normalisation of a query that has a visible character.\<close>

lemma normalised_shape:
  assumes "has_nonspace q"
  shows "trim (collapse_spaces q) \<noteq> [] \<and> \<not> has_double_space (trim (collapse_spaces q))
         \<and> no_outer_space (trim (collapse_spaces q))"
proof -
  from assms have "has_nonspace (trim (collapse_spaces q))" by simp
  then have "trim (collapse_spaces q) \<noteq> []" by (rule has_nonspace_nonempty)
  moreover have "\<not> has_double_space (trim (collapse_spaces q))"
    using has_double_space_trim collapse_spaces_no_double by blast
  ultimately show ?thesis by (simp add: trim_no_outer_space)
qed

subsection \<open>Computations that succeed with a result satisfying a predicate\<close>

lemma succeeds_returnE: "P x \<Longrightarrow> succeeds P (returnE x) s"
  by (simp add: succeeds_def returnE_def)

lemma succeeds_bindE:
  assumes "succeeds R m s" and "\<And>x s'. R x \<Longrightarrow> succeeds Q (f x) s'"
  shows "succeeds Q (bindE m f) s"
proof (cases "m s")
  case (Pair r s')
  show ?thesis
  proof (cases r)
    case (Inl e)
    with Pair assms(1) show ?thesis by (simp add: succeeds_def)
  next
    case (Inr x)
    with Pair assms(1) have "R x" by (simp add: succeeds_def)
    then have "succeeds Q (f x) s'" by (rule assms(2))
    with Pair Inr show ?thesis by (simp add: succeeds_def bindE_def)
  qed
qed

lemma succeeds_randomChoice:
  assumes "items \<noteq> []" and "\<And>x. x \<in> set items \<Longrightarrow> P x"
  shows "succeeds P (\<lambda>g. randomChoice g items) s"
proof -
  have "nat \<lfloor>fst (rng_call s) * real (length items)\<rfloor> < length items"
    using rng_call_range [of s] assms(1) by (intro choice_index_range) simp_all
  then have "items ! nat \<lfloor>fst (rng_call s) * real (length items)\<rfloor> \<in> set items"
    by (rule nth_mem)
  with assms show ?thesis
    by (cases "rng_call s") (simp add: succeeds_def randomChoice_def)
qed

lemma succeeds_draw: "(\<And>u. P u) \<Longrightarrow> succeeds P draw s"
  by (cases "rng_call s") (simp add: succeeds_def draw_def liftS_def)

lemma succeeds_liftS: "(\<And>x. P x) \<Longrightarrow> succeeds P (liftS m) s"
  by (cases "m s") (simp add: succeeds_def liftS_def)

lemma succeeds_with_probability:
  assumes "\<And>s'. succeeds (\<lambda>x. True) m s'"
  shows "succeeds (\<lambda>x. True) (with_probability p m) s"
  unfolding with_probability_def
  by (rule succeeds_bindE [where R = "\<lambda>u. True"])
     (auto intro!: succeeds_draw succeeds_returnE succeeds_bindE [OF assms])

lemma succeeds_True_randomChoice: "items \<noteq> [] \<Longrightarrow> succeeds (\<lambda>x. True) (\<lambda>g. randomChoice g items) s"
  by (rule succeeds_randomChoice) simp_all

lemma has_nonspace_js_Cons: "\<not> is_space (of_char c) \<Longrightarrow> has_nonspace (js (c # cs))"
  by (simp add: has_nonspace_def js_def)

lemma categories_visible: "c \<in> set categories \<Longrightarrow> has_nonspace c"
  by (auto simp: categories_def is_space_def intro!: has_nonspace_js_Cons)

lemma vocab_nonempty:
  "categories \<noteq> []" "adjectives \<noteq> []" "intents \<noteq> []" "brands \<noteq> []" "topics \<noteq> []" "locations \<noteq> []"
  by (simp_all add: categories_def adjectives_def intents_def brands_def topics_def locations_def)

lemma draw_locals_category:
  "succeeds (\<lambda>l. category l \<in> set categories) (draw_locals seedPhrases) s"
  unfolding draw_locals_def
  apply (rule succeeds_bindE [where R = "\<lambda>x. True"])
   apply (auto intro!: succeeds_returnE succeeds_True_randomChoice succeeds_bindE [where R = "\<lambda>x. True"])[1]
  apply (rule succeeds_bindE [where R = "\<lambda>c. c \<in> set categories"])
   apply (rule succeeds_randomChoice; simp add: vocab_nonempty)
  apply (intro succeeds_bindE [where R = "\<lambda>x. True"] succeeds_True_randomChoice
      succeeds_with_probability succeeds_returnE vocab_nonempty; simp)
  done


lemma succeeds_topic_or_random: "succeeds (\<lambda>x. True) (topic_or_random l) s"
  unfolding topic_or_random_def
  by (cases "topic l") (simp_all add: succeeds_returnE succeeds_True_randomChoice vocab_nonempty)

lemma patterns_visible:
  assumes "has_nonspace (category l)" and "p \<in> set (patterns l)"
  shows "succeeds has_nonspace p s"
proof -
  note step = succeeds_bindE [where R = "\<lambda>x. True"]
  have last_pattern: "succeeds has_nonspace
      (bindE (\<lambda>g. randomChoice g categories) (\<lambda>a.
        bindE (\<lambda>g. randomChoice g topics) (\<lambda>b.
          bindE (\<lambda>g. randomChoice g (map js [''and'', ''vs'', ''with'', ''for''])) (\<lambda>glue.
            returnE (trim (a @ js '' '' @ glue @ js '' '' @ b)))))) s"
    apply (rule succeeds_bindE [where R = has_nonspace])
     apply (rule succeeds_randomChoice [OF vocab_nonempty(1) categories_visible], assumption)
    apply (rule step, rule succeeds_True_randomChoice [OF vocab_nonempty(5)])
    apply (rule step, rule succeeds_True_randomChoice, simp)
    apply (rule succeeds_returnE, simp)
    done
  from assms(2) consider "p = last (patterns l)" | "p \<in> set (butlast (patterns l))"
    by (auto simp: patterns_def)
  then show ?thesis
  proof cases
    case 1
    with last_pattern show ?thesis by (simp add: patterns_def)
  next
    case 2
    then show ?thesis
      using assms(1)
      by (auto simp: patterns_def
          intro!: succeeds_returnE step succeeds_topic_or_random succeeds_True_randomChoice)
  qed
qed

lemma decorate_shape:
  assumes "has_nonspace q0"
  shows "succeeds (\<lambda>q. q \<noteq> [] \<and> \<not> has_double_space q \<and> no_outer_space q) (decorate q0) s"
  unfolding decorate_def
  apply (rule succeeds_bindE [where R = "\<lambda>x. True"], rule succeeds_draw, rule TrueI)
  apply (rule succeeds_bindE [where R = has_nonspace])
   apply (auto intro!: succeeds_returnE succeeds_bindE [where R = "\<lambda>x. True"]
      succeeds_True_randomChoice simp: assms)[1]
  apply (rule succeeds_bindE [where R = "\<lambda>x. True"], rule succeeds_draw, rule TrueI)
  apply (rule succeeds_bindE [where R = has_nonspace])
   apply (auto intro!: succeeds_returnE succeeds_bindE [where R = "\<lambda>x. True"]
      succeeds_liftS)[1]
  apply (rule succeeds_returnE)
  apply (erule normalised_shape)
  done

lemma templateQuery_succeeds:
  "succeeds (\<lambda>q. q \<noteq> [] \<and> \<not> has_double_space q \<and> no_outer_space q)
     (\<lambda>g. templateQuery g seedPhrases) g"
proof -
  let ?shape = "\<lambda>q. q \<noteq> [] \<and> \<not> has_double_space q \<and> no_outer_space q"
  have run: "succeeds ?shape (bindE p decorate) s"
    if "category l \<in> set categories" "p \<in> set (patterns l)" for l p s
  proof (rule succeeds_bindE [where R = has_nonspace])
    from that show "succeeds has_nonspace p s"
      by (intro patterns_visible [of l] categories_visible)
  qed (rule decorate_shape)
  have choose: "succeeds ?shape (bindE (\<lambda>g. randomChoice g (patterns l)) (\<lambda>p. bindE p decorate)) s"
    if "category l \<in> set categories" for l s
  proof (rule succeeds_bindE [where R = "\<lambda>p. p \<in> set (patterns l)"])
    show "succeeds (\<lambda>p. p \<in> set (patterns l)) (\<lambda>g. randomChoice g (patterns l)) s"
      by (rule succeeds_randomChoice) (simp_all add: patterns_def)
  qed (rule run [OF that])
  have "succeeds ?shape (bindE (draw_locals seedPhrases)
          (\<lambda>l. bindE (\<lambda>g. randomChoice g (patterns l)) (\<lambda>p. bindE p decorate))) g"
    by (rule succeeds_bindE [OF draw_locals_category]) (rule choose)
  then show ?thesis
    by (simp add: succeeds_def templateQuery_def)
qed

subsection \<open>Seed phrases and the query source\<close>

lemma load_lines:
  "map the (filter truthy (map normalizeSeedLine ls))
     = filter (\<lambda>s. s \<noteq> [] \<and> \<not> startsWith_hash s) (map trim ls)"
  by (induction ls) (simp_all add: normalizeSeedLine_def truthy_def Let_def)

lemma nextQuery_seedPhrases: "qs_seedPhrases (snd (nextQuery qs)) = qs_seedPhrases qs"
  by (cases "templateQuery (qs_rng qs) (qs_seedPhrases qs)") (simp add: nextQuery_def)

lemma after_queries_seedPhrases: "qs_seedPhrases (after_queries n qs) = qs_seedPhrases qs"
  by (induction n arbitrary: qs) (simp_all add: nextQuery_seedPhrases)

lemma queries_outputs: "queries n qs = outputs nextQuery n qs"
  by (induction n arbitrary: qs) (auto split: prod.splits)

section \<open>Properties of the session loop\<close>

lemma example_browser_simps:
  "encodeURIComponent example_browser = Inr"
  "toLowerCase example_browser = id"
  "context_addInitScript example_browser = returnE ()"
  "context_newPage example_browser = returnE ()"
  "context_pages example_browser = (\<lambda>w. [SessionPage])"
  "page_goto example_browser = (\<lambda>url w. (Inr (), Suc w))"
  "page_url example_browser = (\<lambda>w. if 2 \<le> w then js ''https://www.google.com/sorry/index''
                       else js ''https://www.google.com/search'')"
  "page_close example_browser = (\<lambda>p. returnE ())"
  "page_bringToFront example_browser = returnE ()"
  "page_goBack example_browser = returnE ()"
  "body_innerText example_browser = returnE (js ''results'')"
  "button_isVisible example_browser = (\<lambda>b. returnE False)"
  "button_click example_browser = (\<lambda>b. returnE ())"
  "productLinks_count example_browser = returnE 0"
  "link_scrollIntoViewIfNeeded example_browser = (\<lambda>i. returnE ())"
  "link_click_and_wait example_browser = (\<lambda>i w. (False, w))"
  "popup_waitForLoadState example_browser = returnE ()"
  "mouse_wheel example_browser = (\<lambda>dx dy. returnE ())"
  "next_isVisible example_browser = returnE False"
  "next_click_and_wait example_browser = id"
  by (simp_all add: example_browser_def)

lemma example_config_simps:
  "locale' example_config = js ''en-US''"
  "maxQueries example_config = 3"
  "maxPagesPerQuery example_config = 1"
  "maxScrollsPerPage example_config = 2"
  "maxProductOpensPerQuery example_config = 2"
  "minDwellMs example_config = 10"
  "maxDwellMs example_config = 20"
  "minBetweenQueriesMs example_config = 30"
  "maxBetweenQueriesMs example_config = 40"
  by (simp_all add: example_config_def defaultConfig_def)

subsection \<open>What a computation adds to the trace\<close>

lemma all_newI:
  assumes "\<And>s. \<exists>new. s_trace (snd (m s)) = s_trace s @ new \<and> list_all P new"
  shows "all_new P m"
  using assms by (simp add: all_new_def)

lemma all_new_silent:
  assumes "\<And>s. s_trace (snd (m s)) = s_trace s"
  shows "all_new P m"
  by (rule all_newI) (simp add: assms)

lemma all_new_returnE: "all_new P (returnE x)"
  by (rule all_new_silent) (simp add: returnE_def)

lemma all_new_throwE: "all_new P (throwE e)"
  by (rule all_new_silent) (simp add: throwE_def)

lemma all_new_in_world: "all_new P (in_world m)"
  by (rule all_new_silent) (simp add: in_world_def split: prod.split)

lemma all_new_with_rng: "all_new P (with_rng m)"
  by (rule all_new_silent) (simp add: with_rng_def split: prod.split)

lemma all_new_call_nextQuery: "all_new P (call_nextQuery source)"
  by (rule all_new_silent) (simp add: call_nextQuery_def split: prod.split)

lemma all_new_pure: "all_new P (\<lambda>s. (r, s))"
  by (rule all_new_silent) simp

lemma all_new_emit: "P a \<Longrightarrow> all_new P (emit a)"
  by (rule all_newI) (simp add: emit_def)

lemma all_new_bindE:
  assumes "all_new P m" and "\<And>x. all_new P (f x)"
  shows "all_new P (bindE m f)"
proof (rule all_newI)
  fix s
  obtain r s1 where ms: "m s = (r, s1)" by (cases "m s")
  from assms(1) ms obtain new1 where new1: "s_trace s1 = s_trace s @ new1" "list_all P new1"
    unfolding all_new_def by (metis snd_conv)
  show "\<exists>new. s_trace (snd (bindE m f s)) = s_trace s @ new \<and> list_all P new"
  proof (cases r)
    case (Inl e)
    with ms new1 show ?thesis by (simp add: bindE_def)
  next
    case (Inr x)
    from assms(2) [of x] obtain new2
      where "s_trace (snd (f x s1)) = s_trace s1 @ new2" "list_all P new2"
      unfolding all_new_def by blast
    with new1 have "s_trace (snd (f x s1)) = s_trace s @ (new1 @ new2) \<and> list_all P (new1 @ new2)"
      by simp
    with ms Inr show ?thesis unfolding bindE_def by (simp only: prod.case sum.case) blast
  qed
qed

lemma all_new_catchE:
  assumes "all_new P m"
  shows "all_new P (catchE m d)"
proof (rule all_newI)
  fix s
  from assms obtain new where "s_trace (snd (m s)) = s_trace s @ new" "list_all P new"
    unfolding all_new_def by blast
  moreover have "snd (catchE m d s) = snd (m s)"
    by (simp add: catchE_def split: prod.split sum.split)
  ultimately show "\<exists>new. s_trace (snd (catchE m d s)) = s_trace s @ new \<and> list_all P new"
    by simp
qed

lemma all_new_if:
  "all_new P m \<Longrightarrow> all_new P m' \<Longrightarrow> all_new P (if c then m else m')"
  by simp

lemma all_new_either:
  assumes "\<And>s. m s = m1 s \<or> m s = m2 s" and "all_new P m1" and "all_new P m2"
  shows "all_new P m"
proof (rule all_newI)
  fix s
  from assms(1) [of s] show "\<exists>new. s_trace (snd (m s)) = s_trace s @ new \<and> list_all P new"
  proof
    assume "m s = m1 s"
    with assms(2) show ?thesis by (simp add: all_new_def)
  next
    assume "m s = m2 s"
    with assms(3) show ?thesis by (simp add: all_new_def)
  qed
qed

lemmas all_new_steps = all_new_returnE all_new_throwE all_new_in_world all_new_with_rng
  all_new_call_nextQuery all_new_bindE all_new_catchE all_new_if

lemma all_new_jitter: "(\<And>ms. P (Sleep ms)) \<Longrightarrow> all_new P (jitter a b)"
  unfolding jitter_def sleep_def by (intro all_new_steps all_new_emit)

lemma all_new_log_event: "P (Log e) \<Longrightarrow> all_new P (log_event e)"
  unfolding log_event_def by (rule all_new_emit)

lemma all_new_isBlocked: "all_new P (isBlocked B)"
proof (rule all_new_either)
  show "isBlocked B s = returnE True s
      \<or> isBlocked B s = bindE (catchE (in_world (body_innerText B)) [])
            (\<lambda>text. returnE (block_text text)) s" for s :: "('a, 'b) session"
    by (simp add: isBlocked_def returnE_def)
qed (intro all_new_steps)+

lemma all_new_maybeHandleConsent: "all_new P (maybeHandleConsent B)"
  unfolding maybeHandleConsent_def by (intro all_new_steps)

lemma all_new_returnFromProduct: "all_new P (returnFromProduct B)"
proof (rule all_newI)
  fix s :: "('a, 'b) session"
  let ?close = "bindE (catchE (in_world (page_close B (last (context_pages B (s_world s))))) ())
      (\<lambda>_. catchE (in_world (page_bringToFront B)) ())"
  let ?goBack = "catchE (in_world (page_goBack B)) ()"
  have "all_new P ?close" "all_new P ?goBack"
    by (intro all_new_steps)+
  moreover have "returnFromProduct B s = ?close s \<or> returnFromProduct B s = ?goBack s"
    by (simp add: returnFromProduct_def Let_def)
  ultimately show "\<exists>new. s_trace (snd (returnFromProduct B s)) = s_trace s @ new \<and> list_all P new"
    unfolding all_new_def by metis
qed

lemma all_new_clickNextPageIfPresent: "all_new P (clickNextPageIfPresent B)"
  unfolding clickNextPageIfPresent_def by (intro all_new_steps)


subsection \<open>One query logs no error event\<close>

lemma all_new_humanScroll:
  "all_new (\<lambda>a. \<not> is_query_error a) (humanScroll B steps)"
  by (induction steps) (auto intro!: all_new_steps all_new_emit all_new_jitter)

lemma all_new_openRandomProduct:
  "all_new (\<lambda>a. \<not> is_query_error a) (openRandomProduct B)"
  unfolding openRandomProduct_def
  by (auto intro!: all_new_steps all_new_emit all_new_jitter)

lemma all_new_product_loop:
  "all_new (\<lambda>a. \<not> is_query_error a) (product_loop B config n)"
  by (induction n)
     (auto intro!: all_new_steps all_new_jitter all_new_isBlocked all_new_openRandomProduct
        all_new_returnFromProduct)

lemma all_new_pages_loop:
  "all_new (\<lambda>a. \<not> is_query_error a) (pages_loop B config n)"
  by (induction n)
     (auto intro!: all_new_steps all_new_jitter all_new_humanScroll all_new_product_loop
        all_new_clickNextPageIfPresent)

lemma all_new_browseShoppingForQuery:
  "all_new (\<lambda>a. \<not> is_query_error a) (browseShoppingForQuery B config query)"
  unfolding browseShoppingForQuery_def
  by (auto intro!: all_new_steps all_new_jitter all_new_isBlocked all_new_maybeHandleConsent
      all_new_pages_loop all_new_log_event all_new_pure)

subsection \<open>The loop over the queries\<close>

lemma no_start_after_quiet:
  "list_all (\<lambda>a. \<not> is_query_error a) xs \<Longrightarrow> no_start_after_error ys
     \<Longrightarrow> no_start_after_error (xs @ ys)"
  by (induction xs) simp_all

lemma no_start_after_last: "no_start_after_error [a]"
  by simp

text \<open>One iteration whose query throws: the error is logged and the loop is over.\<close>

lemma session_loop_error:
  assumes "call_nextQuery source s = (Inr query, s1)"
    and "browseShoppingForQuery B config query s1 = (Inl err, s2)"
  shows "session_loop B config source (Suc n) s
     = (Inr (), s2\<lparr>s_trace := s_trace s2 @ [Log (QueryError query (String_of_error err))]\<rparr>)"
  using assms
  by (simp add: bindE_def try_catch_def log_event_def emit_def returnE_def)

text \<open>One iteration whose query completes: a pause, then the rest of the loop.\<close>

lemma session_loop_completed:
  assumes "call_nextQuery source s = (Inr query, s1)"
    and "browseShoppingForQuery B config query s1 = (Inr (), s2)"
  shows "session_loop B config source (Suc n) s
     = bindE (jitter (minBetweenQueriesMs config) (maxBetweenQueriesMs config))
         (\<lambda>_. session_loop B config source n) s2"
  using assms
  by (simp add: bindE_def try_catch_def returnE_def)

lemma session_loop_source_error:
  assumes "call_nextQuery source s = (Inl e, s1)"
  shows "session_loop B config source (Suc n) s = (Inl e, s1)"
  using assms by (simp add: bindE_def)

lemma session_loop_trace:
  "\<exists>new. s_trace (snd (session_loop B config source n s)) = s_trace s @ new
     \<and> no_start_after_error new"
proof (induction n arbitrary: s)
  case 0
  show ?case by (simp add: returnE_def)
next
  case (Suc n)
  obtain r s1 where call: "call_nextQuery source s = (r, s1)"
    by (cases "call_nextQuery source s")
  then have t1: "s_trace s1 = s_trace s"
    by (auto simp: call_nextQuery_def split: prod.splits)
  show ?case
  proof (cases r)
    case (Inl e)
    with call have "session_loop B config source (Suc n) s = (Inl e, s1)"
      by (intro session_loop_source_error) simp
    with t1 show ?thesis by (simp del: session_loop.simps)
  next
    case (Inr query)
    obtain rb s2 where browse: "browseShoppingForQuery B config query s1 = (rb, s2)"
      by (cases "browseShoppingForQuery B config query s1")
    with all_new_browseShoppingForQuery [of B config query] obtain nb
      where nb: "s_trace s2 = s_trace s1 @ nb" "list_all (\<lambda>a. \<not> is_query_error a) nb"
      unfolding all_new_def by (metis snd_conv)
    show ?thesis
    proof (cases rb)
      case (Inl err)
      let ?e = "Log (QueryError query (String_of_error err))"
      from call Inr browse Inl
      have "session_loop B config source (Suc n) s = (Inr (), s2\<lparr>s_trace := s_trace s2 @ [?e]\<rparr>)"
        by (intro session_loop_error) simp_all
      moreover from nb have "no_start_after_error (nb @ [?e])"
        by (intro no_start_after_quiet no_start_after_last)
      ultimately show ?thesis using nb t1 by (simp del: session_loop.simps)
    next
      case (Inr u)
      let ?pause = "jitter (minBetweenQueriesMs config) (maxBetweenQueriesMs config)"
      obtain rj s3 where pause: "?pause s2 = (rj, s3)" by (cases "?pause s2")
      have "all_new (\<lambda>a. \<not> is_query_error a) ?pause"
        by (rule all_new_jitter) simp
      with pause obtain np
        where np: "s_trace s3 = s_trace s2 @ np" "list_all (\<lambda>a. \<not> is_query_error a) np"
        unfolding all_new_def by (metis snd_conv)
      from pause have rj: "rj = Inr ()"
        by (auto simp: jitter_def sleep_def emit_def bindE_def with_rng_def split: prod.splits)
      from Suc.IH [of s3] obtain rest
        where rest: "s_trace (snd (session_loop B config source n s3)) = s_trace s3 @ rest"
          "no_start_after_error rest"
        by blast
      from call \<open>r = Inr query\<close> browse Inr
      have "session_loop B config source (Suc n) s
          = bindE ?pause (\<lambda>_. session_loop B config source n) s2"
        by (intro session_loop_completed) simp_all
      with pause rj
      have "session_loop B config source (Suc n) s = session_loop B config source n s3"
        by (simp add: bindE_def del: session_loop.simps)
      moreover from nb np rest have "no_start_after_error (nb @ np @ rest)"
        by (intro no_start_after_quiet)
      ultimately show ?thesis using nb np rest t1 by (simp del: session_loop.simps)
    qed
  qed
qed

lemma runShoppingSession_trace:
  "\<exists>new. s_trace (snd (runShoppingSession B config source s)) = s_trace s @ new
     \<and> no_start_after_error new"
proof -
  obtain r1 s1 where init: "in_world (context_addInitScript B) s = (r1, s1)"
    by (cases "in_world (context_addInitScript B) s")
  then have t1: "s_trace s1 = s_trace s"
    by (auto simp: in_world_def split: prod.splits)
  obtain r2 s2 where page: "in_world (context_newPage B) s1 = (r2, s2)"
    by (cases "in_world (context_newPage B) s1")
  then have t2: "s_trace s2 = s_trace s1"
    by (auto simp: in_world_def split: prod.splits)
  let ?loop = "session_loop B config source (nat \<lceil>maxQueries config\<rceil>)"
  obtain r3 s3 where loop: "?loop s2 = (r3, s3)" by (cases "?loop s2")
  with session_loop_trace [of B config source "nat \<lceil>maxQueries config\<rceil>" s2] obtain new
    where new: "s_trace s3 = s_trace s2 @ new" "no_start_after_error new"
    by auto
  have closed: "s_trace (snd (catchE (in_world (page_close B SessionPage)) () s3)) = s_trace s3"
    by (simp add: catchE_def in_world_def split: prod.split sum.split)
  have "s_trace (snd (runShoppingSession B config source s)) = s_trace s
      \<or> s_trace (snd (runShoppingSession B config source s)) = s_trace s @ new"
    using init page loop closed t1 t2 new(1)
    by (cases r1; cases r2; cases r3) (simp_all add: runShoppingSession_def bindE_def)
  with new(2) show ?thesis
    by (metis append_Nil2 no_start_after_error.simps(1))
qed

subsection \<open>Scrolling\<close>

lemma randomInt_constants:
  fixes lo hi :: int
  assumes "lo \<le> hi" "- (2 ^ 52) \<le> lo" "hi \<le> 2 ^ 52" "hi - lo + 1 \<le> 2 ^ 21"
  shows "\<exists>r. randomInt g (Finite (of_int lo)) (Finite (of_int hi))
               = (Finite (of_int r), snd (rng_call g)) \<and> lo \<le> r \<and> r \<le> hi"
  using randomInt_exact_range [of "of_int lo" "of_int hi" g] assms by simp

lemma int_between_of_int [simp]:
  "int_between lo hi (Finite (of_int r)) \<longleftrightarrow> lo \<le> r \<and> r \<le> hi"
  by simp

lemma jitter_run:
  "jitter a b s = (Inr (), s\<lparr>s_rng := snd (randomInt (s_rng s) (Finite a) (Finite b)),
      s_trace := s_trace s @ [Sleep (fst (randomInt (s_rng s) (Finite a) (Finite b)))]\<rparr>)"
  by (cases "randomInt (s_rng s) (Finite a) (Finite b)")
     (simp add: jitter_def sleep_def emit_def bindE_def with_rng_def)


subsection \<open>The counts of a query\<close>










subsection \<open>Opening a product\<close>

lemma counted_links_catch:
  "catchE (in_world (productLinks_count B)) 0 s
     = (Inr (counted_links B (s_world s)), s\<lparr>s_world := snd (productLinks_count B (s_world s))\<rparr>)"
  by (cases "productLinks_count B (s_world s)")
     (auto simp: catchE_def in_world_def counted_links_def split: sum.splits)

lemma openRandomProduct_none:
  assumes "counted_links B (s_world s) \<le> 0"
  shows "openRandomProduct B s
     = (Inr False, s\<lparr>s_world := snd (productLinks_count B (s_world s))\<rparr>)"
  using assms by (simp add: openRandomProduct_def bindE_def counted_links_catch returnE_def)

lemma product_loop_none:
  assumes "isBlocked B s0 = (Inr False, s)" and "counted_links B (s_world s) \<le> 0"
  shows "product_loop B config (Suc n) s0
     = (Inr (), s\<lparr>s_world := snd (productLinks_count B (s_world s))\<rparr>)"
  using assms by (simp add: bindE_def openRandomProduct_none returnE_def)

lemma openRandomProduct_some:
  assumes "0 < counted_links B (s_world s)"
  shows "\<exists>idx ms s'. openRandomProduct B s = (Inr True, s')
     \<and> s_trace s' = s_trace s @ [NthLink (Finite (of_int idx)), Sleep ms]
     \<and> 0 \<le> idx \<and> idx < 20 \<and> idx < counted_links B (s_world s)"
proof -
  let ?c = "counted_links B (s_world s)"
  let ?s1 = "s\<lparr>s_world := snd (productLinks_count B (s_world s))\<rparr>"
  from assms have "(0::int) \<le> min ?c 20 - 1" "- (2 ^ 52) \<le> (0::int)" "min ?c 20 - 1 \<le> 2 ^ 52"
      "min ?c 20 - 1 - 0 + 1 \<le> 2 ^ 21"
    by simp_all
  from randomInt_constants [OF this, of "s_rng s"]
  obtain i g1 where i: "randomInt (s_rng s) (Finite 0) (Finite (real_of_int (min ?c 20 - 1)))
        = (Finite (of_int i), g1)" "0 \<le> i" "i \<le> min ?c 20 - 1"
    by auto
  define idx where "idx = Finite (real_of_int i)"
  from i(1) have idx: "randomInt (s_rng s) (Finite 0) (Finite (real_of_int (min ?c 20 - 1))) = (idx, g1)"
    by (simp add: idx_def)
  from i(2,3) have range: "0 \<le> i" "i < 20" "i < ?c"
    by simp_all
  let ?s2 = "?s1\<lparr>s_rng := g1, s_trace := s_trace s @ [NthLink idx]\<rparr>"
  obtain r3 s3 where scroll: "catchE (in_world (link_scrollIntoViewIfNeeded B idx)) () ?s2 = (r3, s3)"
    by (cases "catchE (in_world (link_scrollIntoViewIfNeeded B idx)) () ?s2")
  then have s3: "r3 = Inr ()" "s_trace s3 = s_trace ?s2"
    by (auto simp: catchE_def in_world_def split: prod.splits sum.splits)
  let ?ms = "fst (randomInt (s_rng s3) (Finite 200) (Finite 900))"
  let ?s4 = "s3\<lparr>s_rng := snd (randomInt (s_rng s3) (Finite 200) (Finite 900)),
      s_trace := s_trace s3 @ [Sleep ?ms]\<rparr>"
  obtain popup w5 where click: "link_click_and_wait B idx (s_world ?s4) = (popup, w5)"
    by (cases "link_click_and_wait B idx (s_world ?s4)")
  let ?s5 = "?s4\<lparr>s_world := w5\<rparr>"
  obtain r6 s6 where load: "catchE (in_world (popup_waitForLoadState B)) () ?s5 = (r6, s6)"
    by (cases "catchE (in_world (popup_waitForLoadState B)) () ?s5")
  then have s6: "r6 = Inr ()" "s_trace s6 = s_trace ?s5"
    by (auto simp: catchE_def in_world_def split: prod.splits sum.splits)
  from assms idx scroll s3(1) click load s6(1)
  have "openRandomProduct B s = (Inr True, if popup then s6 else ?s5)"
    by (simp add: openRandomProduct_def bindE_def counted_links_catch returnE_def with_rng_def
        emit_def jitter_run in_world_def liftS_def)
  moreover from s3(2) s6(2)
  have "s_trace (if popup then s6 else ?s5) = s_trace s @ [NthLink idx, Sleep ?ms]"
    by simp
  ultimately show ?thesis using range unfolding idx_def by force
qed

subsection \<open>Evaluating the example runs\<close>

lemmas monad_ev = in_world_def with_rng_def call_nextQuery_def catchE_def try_catch_def
  bindE_def returnE_def throwE_def liftS_def emit_def log_event_def sleep_def jitter_def

text \<open>
  For the small ranges of the examples \<open>randomInt\<close> is evaluated by its exact value
  (\<open>randomInt_exact\<close>: no operation rounds there).
\<close>

lemma randomInt_small:
  assumes "\<lceil>a\<rceil> \<le> \<lfloor>b\<rfloor>" "- (2 ^ 52) \<le> \<lceil>a\<rceil>" "\<lfloor>b\<rfloor> \<le> 2 ^ 52" "\<lfloor>b\<rfloor> - \<lceil>a\<rceil> + 1 \<le> 2 ^ 21"
  shows "randomInt g (Finite a) (Finite b)
         = (case rng_call g of (u, g') \<Rightarrow>
              (Finite (of_int (\<lfloor>u * real_of_int (\<lfloor>b\<rfloor> - \<lceil>a\<rceil> + 1)\<rfloor> + \<lceil>a\<rceil>)), g'))"
  unfolding randomInt_exact [OF assms] by (simp split: prod.splits)

lemmas rng_ev = randomInt_small randomInt_degenerate rng_call_def imul_def Let_def

lemmas loops_numeral =
  humanScroll.simps(2) [of _ "pred_numeral k", folded numeral_eq_Suc]
  product_loop.simps(2) [of _ _ "pred_numeral k", folded numeral_eq_Suc]
  pages_loop.simps(2) [of _ _ "pred_numeral k", folded numeral_eq_Suc]
  session_loop.simps(2) [of _ _ _ "pred_numeral k", folded numeral_eq_Suc] for k

lemmas browse_ev = browseShoppingForQuery_def search_url_def
  getHlFromLocale_def isBlocked_def maybeHandleConsent_def openRandomProduct_def
  returnFromProduct_def clickNextPageIfPresent_def blocked_error_def draw_pagesToBrowse_def
  draw_scrolls_def draw_productOpens_def block_text_def ascii_lower_def

lemma example_run:
  "runShoppingSession example_browser example_config listed_queries example_session
   = (Inr (),
      \<lparr>s_rng = 16484092318, s_source = [js ''c''], s_world = 2,
       s_trace =
         [Log (QueryStart (js ''a'') (js ''https://www.google.com/search?tbm=shop&hl=en&q=a'')),
          Wheel (Finite 0) (Finite 668), Sleep (Finite 888), Wheel (Finite 0) (Finite 960),
          Sleep (Finite 432), Sleep (Finite 17),
          Log (QueryEnd (js ''a'')), Sleep (Finite 34),
          Log (QueryStart (js ''b'') (js ''https://www.google.com/search?tbm=shop&hl=en&q=b'')),
          Log (QueryError (js ''b'') (js ''Error: Blocked/captcha detected on Google.''))]\<rparr>)"
  by (simp add: runShoppingSession_def example_session_def listed_queries_def mulberry32_def
      ToUint32_def trunc_def browse_ev example_browser_simps example_config_simps monad_ev
      rng_ev loops_numeral js_def new_Error_def String_of_error_def)

lemma example_browser_with_links_simps:
  "productLinks_count example_browser_with_links = returnE 50"
  "page_url example_browser_with_links = page_url example_browser"
  "body_innerText example_browser_with_links = body_innerText example_browser"
  "link_scrollIntoViewIfNeeded example_browser_with_links = (\<lambda>i. returnE ())"
  "link_click_and_wait example_browser_with_links = (\<lambda>i w. (False, w))"
  "popup_waitForLoadState example_browser_with_links = returnE ()"
  by (simp_all add: example_browser_with_links_def example_browser_simps)

section \<open>The claims\<close>

subsection \<open>Integer draws and choices\<close>

text \<open>
  Claim C4.  For every generator and all finite numbers \<open>mn\<close> and \<open>mx\<close> whose span
  \<open>\<lfloor>mx\<rfloor> - \<lceil>mn\<rceil>\<close> is below \<open>2^1024 - 2^970\<close> (so that the subtraction does not
  overflow), \<open>randomInt\<close> returns an integer between \<open>\<lceil>mn\<rceil>\<close> and \<open>\<lfloor>mx\<rfloor>\<close>, both
  included, when \<open>\<lceil>mn\<rceil> \<le> \<lfloor>mx\<rfloor>\<close> (and has then called the generator once).  For all
  numbers, the infinities included, it returns the resolved minimum without calling the
  generator when the resolved maximum is below it; so \<open>randomInt(rng, 5, 5)\<close> and
  \<open>randomInt(rng, 5, 2)\<close> are always 5.
\<close>

theorem randomInt_range:
  "(is_double mn \<and> is_double mx \<and> \<lceil>mn\<rceil> \<le> \<lfloor>mx\<rfloor>
      \<and> real_of_int (\<lfloor>mx\<rfloor> - \<lceil>mn\<rceil>) < pow2 1024 - pow2 970 \<longrightarrow>
      (\<exists>r. randomInt g (Finite mn) (Finite mx) = (Finite (of_int r), snd (rng_call g))
         \<and> \<lceil>mn\<rceil> \<le> r \<and> r \<le> \<lfloor>mx\<rfloor>))
   \<and> (\<lfloor>mx\<rfloor> < \<lceil>mn\<rceil> \<longrightarrow> randomInt g (Finite mn) (Finite mx) = (Finite (of_int \<lceil>mn\<rceil>), g))
   \<and> (js_less (Math_floor b) (Math_ceil a) \<longrightarrow> randomInt g a b = (Math_ceil a, g))
   \<and> fst (randomInt g (Finite 5) (Finite 5)) = Finite 5
   \<and> fst (randomInt g (Finite 5) (Finite 2)) = Finite 5"
proof -
  have "fst (randomInt g (Finite 5) (Finite 5)) = Finite 5"
    using randomInt_exact_range [of 5 5 g] by auto
  moreover have "fst (randomInt g (Finite 5) (Finite 2)) = Finite 5"
    using randomInt_degenerate [of 2 5 g] by simp
  moreover have "randomInt g a b = (Math_ceil a, g)" if "js_less (Math_floor b) (Math_ceil a)"
    using that by (simp add: randomInt_def Let_def)
  ultimately show ?thesis
    using randomInt_bounds [of mn mx g] randomInt_degenerate [of mx mn g] by blast
qed

theorem randomInt_range_witness:
  "is_double 2 \<and> is_double 128 \<and> \<lceil>2::real\<rceil> \<le> \<lfloor>128::real\<rfloor>
   \<and> real_of_int (\<lfloor>128::real\<rfloor> - \<lceil>2::real\<rceil>) < pow2 1024 - pow2 970
   \<and> randomInt (mulberry32 1) (Finite 2) (Finite 128) = (Finite 81, 1831565814)
   \<and> \<lfloor>2::real\<rfloor> < \<lceil>5::real\<rceil>
   \<and> randomInt (mulberry32 1) (Finite 5) (Finite 2) = (Finite 5, mulberry32 1)
   \<and> js_less (Math_floor MinusInfinity) (Math_ceil (Finite 3))
   \<and> randomInt (mulberry32 1) (Finite 3) MinusInfinity = (Finite 3, mulberry32 1)"
  using randomInt_range [where mn = 2 and mx = 128 and g = "mulberry32 1"
      and a = "Finite 3" and b = MinusInfinity]
    randomInt_range [where mn = 5 and mx = 2 and g = "mulberry32 1"
      and a = "Finite 3" and b = MinusInfinity]
  by (simp add: randomInt_def rng_call_def imul_def mulberry32_def ToUint32_def trunc_def
      is_double_def number_ev)

text \<open>
  The bound on the span is needed.  Between the doubles \<open>-2^1023\<close> and \<open>2^1023\<close> the
  range is not empty, the difference \<open>max - min\<close> overflows to \<open>+Infinity\<close>, and
  \<open>randomInt\<close> returns \<open>+Infinity\<close>, which is no integer of the range.
\<close>

theorem randomInt_overflow:
  "is_double (- (2 ^ 1023)) \<and> is_double (2 ^ 1023)
   \<and> \<lceil>- (2 ^ 1023) :: real\<rceil> \<le> \<lfloor>2 ^ 1023 :: real\<rfloor>
   \<and> fst (randomInt (mulberry32 1) (Finite (- (2 ^ 1023))) (Finite (2 ^ 1023))) = PlusInfinity
   \<and> \<not> (\<exists>r. fst (randomInt (mulberry32 1) (Finite (- (2 ^ 1023))) (Finite (2 ^ 1023)))
              = Finite (of_int r))"
proof -
  have d: "is_double (2 ^ 1023)"
    using is_double_exact [of "2 ^ 52" 971] by (simp add: pow2_def)
  then have d': "is_double (- (2 ^ 1023))" by (simp only: is_double_minus)
  have c: "\<lceil>- (2 ^ 1023) :: real\<rceil> \<le> \<lfloor>2 ^ 1023 :: real\<rfloor>" by simp
  have u: "0 < fst (rng_call (mulberry32 1))"
    by (simp add: mulberry32_def ToUint32_def trunc_def rng_call_def imul_def Let_def)
  have "pow2 1024 \<le> 2 ^ 1023 + 2 ^ 1023" by (simp add: pow2_def)
  then have "round_double (2 ^ 1023 + 2 ^ 1023) = PlusInfinity" by (rule round_double_overflow)
  then have "js_sub (Finite (2 ^ 1023)) (Finite (- (2 ^ 1023))) = PlusInfinity"
    by (simp add: js_sub_def)
  then have "scale_draw (fst (rng_call (mulberry32 1))) (Finite (- (2 ^ 1023))) (Finite (2 ^ 1023))
      = PlusInfinity"
    using u by (simp add: scale_draw_def)
  moreover have "of_int \<lceil>- (2 ^ 1023) :: real\<rceil> = (- (2 ^ 1023) :: real)"
    "of_int \<lfloor>2 ^ 1023 :: real\<rfloor> = (2 ^ 1023 :: real)"
    by simp_all
  ultimately
  have "fst (randomInt (mulberry32 1) (Finite (- (2 ^ 1023))) (Finite (2 ^ 1023))) = PlusInfinity"
    using c by (simp only: randomInt_resolved) simp
  with d d' c show ?thesis by simp
qed

text \<open>
  Claim C5.  \<open>randomChoice\<close> throws exactly when the collection is empty (the error
  \<open>randomChoice: empty array\<close>, the generator untouched); on a collection that is not
  empty it returns one of its elements after one call of the generator, and on a
  collection of one element it returns that element.
\<close>

theorem randomChoice_spec:
  "((\<exists>e. fst (randomChoice g items) = Inl e) \<longleftrightarrow> items = [])
   \<and> (items = [] \<longrightarrow>
        randomChoice g items = (Inl (new_Error ''randomChoice: empty array''), g))
   \<and> (items \<noteq> [] \<longrightarrow>
        (\<exists>x. randomChoice g items = (Inr x, snd (rng_call g)) \<and> x \<in> set items))
   \<and> randomChoice g [y] = (Inr y, snd (rng_call g))"
proof -
  obtain u g' where call: "rng_call g = (u, g')" by (cases "rng_call g")
  with rng_call_range [of g] have u: "0 \<le> u" "u < 1" by simp_all
  have one: "randomChoice g [y] = (Inr y, snd (rng_call g))"
    using choice_index_range [OF u, of "[y]"] call by (simp add: randomChoice_def)
  have "\<exists>x. randomChoice g items = (Inr x, snd (rng_call g)) \<and> x \<in> set items" if "items \<noteq> []"
    using choice_index_range [OF u that] that call by (simp add: randomChoice_def)
  with one show ?thesis
    by (auto simp: randomChoice_def)
qed

theorem randomChoice_spec_witness:
  "fst (randomChoice (mulberry32 1) ([] :: nat list)) = Inl (new_Error ''randomChoice: empty array'')
   \<and> randomChoice (mulberry32 1) [10, 20, 30 :: nat] = (Inr 20, 1831565814)
   \<and> (20 :: nat) \<in> set [10, 20, 30]
   \<and> randomChoice (mulberry32 1) [7 :: nat] = (Inr 7, 1831565814)"
  using randomChoice_spec [of "mulberry32 1" "[]::nat list"]
    randomChoice_spec [of "mulberry32 1" "[10, 20, 30 :: nat]" 7]
  by (simp add: randomChoice_def rng_call_def imul_def Let_def mulberry32_def ToUint32_def trunc_def)

subsection \<open>The query generator\<close>

text \<open>
  Claim C2.  For every state of the generator and every list of seed phrases, the empty
  list included, \<open>templateQuery\<close> returns a query (it does not throw); the query is
  not empty, has no two adjacent white-space code units, and neither starts nor ends with
  white space.
\<close>

theorem templateQuery_shape:
  "\<exists>q g'. templateQuery g seedPhrases = (Inr q, g')
     \<and> q \<noteq> [] \<and> \<not> has_double_space q \<and> no_outer_space q"
  using templateQuery_succeeds [of seedPhrases g]
  by (cases "templateQuery g seedPhrases") (auto simp: succeeds_def split: sum.splits)

text \<open>
  Claim C6.  Loading the seed phrases keeps, in their trimmed form, exactly the lines of
  the file that are not blank after trimming and do not then start with \<open>#\<close>: the
  file with a comment, an empty line and \<open>wireless earbuds\<close> gives that one phrase.  A
  file that cannot be read, an empty path and an absent path give the empty list; no
  error is raised.
\<close>

theorem loadSeedPhrases_spec:
  "(path \<noteq> [] \<and> readFile path = Inr content \<longrightarrow>
      loadSeedPhrases readFile (Some path)
        = filter (\<lambda>s. s \<noteq> [] \<and> \<not> startsWith_hash s) (map trim (split_lines content)))
   \<and> (path \<noteq> [] \<and> readFile path = Inr (js ''# comment\<newline>\<newline>wireless earbuds'') \<longrightarrow>
      loadSeedPhrases readFile (Some path) = [js ''wireless earbuds''])
   \<and> ((\<exists>e. readFile path = Inl e) \<longrightarrow> loadSeedPhrases readFile (Some path) = [])
   \<and> loadSeedPhrases readFile (Some []) = []
   \<and> loadSeedPhrases readFile None = []"
proof -
  have general: "loadSeedPhrases readFile (Some path)
        = filter (\<lambda>s. s \<noteq> [] \<and> \<not> startsWith_hash s) (map trim (split_lines c))"
    if "path \<noteq> []" "readFile path = Inr c" for c
    using that by (simp add: loadSeedPhrases_def truthy_def load_lines)
  have example: "filter (\<lambda>s. s \<noteq> [] \<and> \<not> startsWith_hash s)
        (map trim (split_lines (js ''# comment\<newline>\<newline>wireless earbuds''))) = [js ''wireless earbuds'']"
    by (simp add: js_def trim_def is_space_def startsWith_hash_def)
  have failure: "loadSeedPhrases readFile (Some path) = []" if "readFile path = Inl e" for e
    using that by (simp add: loadSeedPhrases_def)
  have "loadSeedPhrases readFile (Some []) = []" "loadSeedPhrases readFile None = []"
    by (simp_all add: loadSeedPhrases_def truthy_def)
  with general example failure show ?thesis by auto
qed

theorem loadSeedPhrases_spec_witness:
  "js ''seeds.txt'' \<noteq> []
   \<and> example_readFile (js ''seeds.txt'') = Inr (js ''# comment\<newline>\<newline>wireless earbuds\<newline>'')
   \<and> loadSeedPhrases example_readFile (Some (js ''seeds.txt'')) = [js ''wireless earbuds'']
   \<and> example_readFile (js ''missing.txt'') = Inl (JsError (js ''Error'') (js ''ENOENT: no such file or directory''))
   \<and> loadSeedPhrases example_readFile (Some (js ''missing.txt'')) = []"
  using loadSeedPhrases_spec [of "js ''seeds.txt''" example_readFile "js ''# comment\<newline>\<newline>wireless earbuds\<newline>''"]
    loadSeedPhrases_spec [of "js ''missing.txt''" example_readFile]
  by (simp add: example_readFile_def js_def trim_def is_space_def startsWith_hash_def)

text \<open>
  Claim C10.  Whatever the file holds, every seed phrase loaded is a string that is not
  empty, neither starts nor ends with white space, and does not start with \<open>#\<close>; and
  the list the query source holds after any number of calls of \<open>nextQuery\<close> is the list
  that was loaded.
\<close>

theorem seedPhrases_invariant:
  "(\<forall>s \<in> set (loadSeedPhrases readFile seedFile').
      s \<noteq> [] \<and> no_outer_space s \<and> \<not> startsWith_hash s)
   \<and> qs_seedPhrases (after_queries n (buildQuerySource readFile seedFile' g))
       = loadSeedPhrases readFile seedFile'"
proof -
  have "s \<noteq> [] \<and> no_outer_space s \<and> \<not> startsWith_hash s"
    if "s \<in> set (map the (filter truthy (map normalizeSeedLine ls)))" for s ls
    using that by (auto simp: load_lines trim_no_outer_space)
  then have "\<forall>s \<in> set (loadSeedPhrases readFile seedFile').
      s \<noteq> [] \<and> no_outer_space s \<and> \<not> startsWith_hash s"
    by (auto simp: loadSeedPhrases_def split: sum.splits)
  then show ?thesis
    by (simp add: after_queries_seedPhrases buildQuerySource_def)
qed

theorem seedPhrases_invariant_witness:
  "qs_seedPhrases (after_queries 3 (buildQuerySource example_readFile (Some (js ''seeds.txt'')) (mulberry32 1)))
     = [js ''wireless earbuds'']
   \<and> js ''wireless earbuds'' \<noteq> [] \<and> no_outer_space (js ''wireless earbuds'')
   \<and> \<not> startsWith_hash (js ''wireless earbuds'')"
proof -
  have "loadSeedPhrases example_readFile (Some (js ''seeds.txt'')) = [js ''wireless earbuds'']"
    by (simp add: loadSeedPhrases_def truthy_def normalizeSeedLine_def Let_def
        example_readFile_def js_def trim_def is_space_def startsWith_hash_def)
  with seedPhrases_invariant [of example_readFile "Some (js ''seeds.txt'')" 3 "mulberry32 1"]
  show ?thesis by simp
qed

subsection \<open>Seeds\<close>

text \<open>
  Claim C9.  \<open>mulberry32\<close> uses its seed modulo \<open>2^32\<close>: two integer seeds that are
  congruent modulo \<open>2^32\<close> give the same generator and so the same draws, every
  integer seed gives the generator of its residue, and a seed that is not an integer is
  truncated first.  No seed is rejected.
\<close>

theorem mulberry32_seed_mod:
  "(s mod 2 ^ 32 = s' mod 2 ^ 32 \<longrightarrow>
      mulberry32 (of_int s) = mulberry32 (of_int s')
      \<and> draws n (mulberry32 (of_int s)) = draws n (mulberry32 (of_int s')))
   \<and> mulberry32 (of_int s) = mulberry32 (of_int (s mod 2 ^ 32))
   \<and> mulberry32 x = mulberry32 (of_int (trunc x mod 2 ^ 32))"
proof -
  have same: "mulberry32 (of_int s) = mulberry32 (of_int s')" if "s mod 2 ^ 32 = s' mod 2 ^ 32"
    using that word_of_int_mod32 [of s] word_of_int_mod32 [of s']
    by (simp only: mulberry32_of_int)
  have reduced: "mulberry32 (of_int k) = mulberry32 (of_int (k mod 2 ^ 32))" for k
    using word_of_int_mod32 [of k] by (simp only: mulberry32_of_int)
  have "mulberry32 x = word_of_int (trunc x)"
    by (simp add: mulberry32_def ToUint32_def)
  also have "\<dots> = mulberry32 (of_int (trunc x))"
    by (simp only: mulberry32_of_int)
  also have "\<dots> = mulberry32 (of_int (trunc x mod 2 ^ 32))"
    by (rule reduced)
  finally have "mulberry32 x = mulberry32 (of_int (trunc x mod 2 ^ 32))" .
  with same reduced [of s] show ?thesis
    by auto
qed

theorem mulberry32_seed_mod_witness:
  "(4294967297 :: int) mod 2 ^ 32 = 1 mod 2 ^ 32
   \<and> mulberry32 4294967297 = mulberry32 1
   \<and> draws 2 (mulberry32 4294967297) = [2693262067 / 4294967296, 11749833 / 4294967296]
   \<and> draws 2 (mulberry32 1) = [2693262067 / 4294967296, 11749833 / 4294967296]
   \<and> mulberry32 (- 1) = mulberry32 4294967295"
  using mulberry32_seed_mod [of 4294967297 1 2] mulberry32_seed_mod [of "- 1" "- 1" 0]
  by (simp add: mulberry32_def ToUint32_def trunc_def rng_call_def imul_def Let_def draws_numeral)

text \<open>
  Claim C1.  Two generators built by \<open>mulberry32\<close> from the same seed, called in any
  interleaving, each return the draws that the seed alone determines: the first
  \<open>k\<close> draws of that generator after \<open>k\<close> calls, so the two sequences agree
  position by position.  The same holds for two query sources built over two such
  generators with the same seed phrases.
\<close>

theorem seeded_runs_agree:
  "interleaved rng_call sched (mulberry32 sd) (mulberry32 sd)
     = (draws (length (filter id sched)) (mulberry32 sd),
        draws (length (filter Not sched)) (mulberry32 sd))
   \<and> (case interleaved rng_call sched (mulberry32 sd) (mulberry32 sd) of
        (xs, ys) \<Rightarrow> take (length ys) xs = take (length xs) ys)
   \<and> interleaved nextQuery sched
        \<lparr>qs_rng = mulberry32 sd, qs_seedPhrases = phrases\<rparr>
        \<lparr>qs_rng = mulberry32 sd, qs_seedPhrases = phrases\<rparr>
     = (queries (length (filter id sched)) \<lparr>qs_rng = mulberry32 sd, qs_seedPhrases = phrases\<rparr>,
        queries (length (filter Not sched)) \<lparr>qs_rng = mulberry32 sd, qs_seedPhrases = phrases\<rparr>)
   \<and> (case interleaved nextQuery sched
          \<lparr>qs_rng = mulberry32 sd, qs_seedPhrases = phrases\<rparr>
          \<lparr>qs_rng = mulberry32 sd, qs_seedPhrases = phrases\<rparr> of
        (xs, ys) \<Rightarrow> take (length ys) xs = take (length xs) ys)"
  by (simp add: interleaved_outputs draws_outputs queries_outputs take_outputs min.commute)

theorem seeded_runs_agree_witness:
  "interleaved rng_call [True, False, True] (mulberry32 1) (mulberry32 1)
     = ([2693262067 / 4294967296, 11749833 / 4294967296], [2693262067 / 4294967296])"
  using seeded_runs_agree [of "[True, False, True]" 1]
  by (simp add: mulberry32_def ToUint32_def trunc_def rng_call_def imul_def Let_def draws_numeral)

subsection \<open>The session loop\<close>

text \<open>
  Claim C3.  When the processing of a query throws, whatever the error, the loop logs a
  \<open>query_error\<close> event with the text of the query and \<open>String(err)\<close> and ends at
  once: nothing else is done to the state, no further query is asked for and none is
  retried.  So, in every run, no \<open>query_start\<close> event follows a \<open>query_error\<close>
  event.
\<close>

theorem query_error_ends_run:
  "(call_nextQuery source s = (Inr query, s1)
      \<and> browseShoppingForQuery B config query s1 = (Inl err, s2) \<longrightarrow>
        session_loop B config source (Suc n) s
          = (Inr (), s2\<lparr>s_trace := s_trace s2 @ [Log (QueryError query (String_of_error err))]\<rparr>))
   \<and> (\<exists>new. s_trace (snd (session_loop B config source n s)) = s_trace s @ new
          \<and> no_start_after_error new)
   \<and> (\<exists>new. s_trace (snd (runShoppingSession B config source s)) = s_trace s @ new
          \<and> no_start_after_error new)"
  using session_loop_error [of source s query s1 B config err s2 n]
    session_loop_trace [of B config source n s]
    runShoppingSession_trace [of B config source s]
  by blast

theorem query_error_ends_run_witness:
  "call_nextQuery listed_queries example_session_before_block
     = (Inr (js ''b''), example_session_before_block\<lparr>s_source := [js ''c'']\<rparr>)
   \<and> browseShoppingForQuery example_browser example_config (js ''b'')
       (example_session_before_block\<lparr>s_source := [js ''c'']\<rparr>)
     = (Inl blocked_error,
        example_session_before_block\<lparr>s_source := [js ''c''], s_world := 2,
          s_trace := [Log (QueryStart (js ''b'')
            (js ''https://www.google.com/search?tbm=shop&hl=en&q=b''))]\<rparr>)
   \<and> session_loop example_browser example_config listed_queries (Suc 1)
       example_session_before_block
     = (Inr (),
        example_session_before_block\<lparr>s_source := [js ''c''], s_world := 2,
          s_trace :=
            [Log (QueryStart (js ''b'') (js ''https://www.google.com/search?tbm=shop&hl=en&q=b'')),
             Log (QueryError (js ''b'') (js ''Error: Blocked/captcha detected on Google.''))]\<rparr>)
   \<and> events (s_trace (snd (runShoppingSession example_browser example_config listed_queries
         example_session)))
     = [QueryStart (js ''a'') (js ''https://www.google.com/search?tbm=shop&hl=en&q=a''),
        QueryEnd (js ''a''),
        QueryStart (js ''b'') (js ''https://www.google.com/search?tbm=shop&hl=en&q=b''),
        QueryError (js ''b'') (js ''Error: Blocked/captcha detected on Google.'')]
   \<and> no_start_after_error (s_trace (snd (runShoppingSession example_browser example_config
         listed_queries example_session)))"
proof -
  let ?s1 = "example_session_before_block\<lparr>s_source := [js ''c'']\<rparr>"
  let ?s2 = "example_session_before_block\<lparr>s_source := [js ''c''], s_world := 2,
      s_trace := [Log (QueryStart (js ''b'')
        (js ''https://www.google.com/search?tbm=shop&hl=en&q=b''))]\<rparr>"
  have next_query: "call_nextQuery listed_queries example_session_before_block = (Inr (js ''b''), ?s1)"
    by (simp add: call_nextQuery_def listed_queries_def example_session_before_block_def)
  have blocked: "browseShoppingForQuery example_browser example_config (js ''b'') ?s1
      = (Inl blocked_error, ?s2)"
    by (simp add: example_session_before_block_def browse_ev example_browser_simps
        example_config_simps monad_ev js_def)
  have message: "String_of_error blocked_error = js ''Error: Blocked/captcha detected on Google.''"
    by (simp add: blocked_error_def new_Error_def String_of_error_def js_def)
  from query_error_ends_run
    [of listed_queries example_session_before_block "js ''b''" ?s1
      example_browser example_config blocked_error ?s2 1]
    next_query blocked message
  have stop: "session_loop example_browser example_config listed_queries (Suc 1)
       example_session_before_block
     = (Inr (),
        example_session_before_block\<lparr>s_source := [js ''c''], s_world := 2,
          s_trace :=
            [Log (QueryStart (js ''b'') (js ''https://www.google.com/search?tbm=shop&hl=en&q=b'')),
             Log (QueryError (js ''b'') (js ''Error: Blocked/captcha detected on Google.''))]\<rparr>)"
    by (simp add: example_session_before_block_def del: session_loop.simps)
  from next_query blocked stop show ?thesis
    by (simp add: example_run del: session_loop.simps)
qed




text \<open>
  Claim C8.  When the count of product links is zero (or the count fails, which the code
  takes for zero), \<open>openRandomProduct\<close> returns \<open>false\<close> without throwing, drawing
  or pausing, and the product-open loop of the page, once the block check has passed,
  ends there without an error, whatever is left of its budget.  When there is a link, the
  one opened is among the first 20 and among those counted.
\<close>

theorem openRandomProduct_links:
  "(counted_links B (s_world s) \<le> 0 \<longrightarrow>
      openRandomProduct B s
        = (Inr False, s\<lparr>s_world := snd (productLinks_count B (s_world s))\<rparr>)
      \<and> (isBlocked B s0 = (Inr False, s) \<longrightarrow>
            product_loop B config (Suc n) s0
              = (Inr (), s\<lparr>s_world := snd (productLinks_count B (s_world s))\<rparr>)))
   \<and> (0 < counted_links B (s_world s) \<longrightarrow>
        (\<exists>idx ms s'. openRandomProduct B s = (Inr True, s')
           \<and> s_trace s' = s_trace s @ [NthLink (Finite (of_int idx)), Sleep ms]
           \<and> 0 \<le> idx \<and> idx < 20 \<and> idx < counted_links B (s_world s)))"
  using openRandomProduct_none [of B s] product_loop_none [of B s0 s config n]
    openRandomProduct_some [of B s]
  by blast

theorem openRandomProduct_links_witness:
  "counted_links example_browser (s_world example_session) = 0
   \<and> openRandomProduct example_browser example_session = (Inr False, example_session)
   \<and> isBlocked example_browser example_session = (Inr False, example_session)
   \<and> product_loop example_browser example_config (Suc 1) example_session
     = (Inr (), example_session)
   \<and> counted_links example_browser_with_links (s_world example_session) = 50
   \<and> openRandomProduct example_browser_with_links example_session
     = (Inr True, example_session\<lparr>s_rng := 3663131627,
          s_trace := [NthLink (Finite 12), Sleep (Finite 201)]\<rparr>)"
  using openRandomProduct_links
      [of example_browser example_session example_session example_config 1]
    openRandomProduct_links [of example_browser_with_links example_session]
  by (simp add: counted_links_def openRandomProduct_def isBlocked_def block_text_def
      ascii_lower_def js_def example_session_def mulberry32_def ToUint32_def trunc_def
      example_browser_simps example_browser_with_links_simps monad_ev rng_ev)

end
